theory Spec2Isabelle
  imports Complex_Main "HOL-Library.AList"
begin

section \<open>Data model\<close>

text \<open>
  The engine exists twice in the repository: \<^verbatim>\<open>NativeWorkerModule.kt\<close> (Android) and the Swift
  class \<^verbatim>\<open>NativeWorker\<close> (iOS). Both keep a pending queue \<^verbatim>\<open>taskQueue\<close>, a registry
  \<^verbatim>\<open>activeTasks\<close> and a flag \<^verbatim>\<open>isProcessing\<close>.

  A \<^verbatim>\<open>WorkerTask\<close> is an object shared by the queue and the registry; its cancellation flag is
  mutable (an \<^verbatim>\<open>AtomicBoolean\<close> on Android, the field \<^verbatim>\<open>isCancelled\<close> on iOS). The flag is
  therefore kept in an explicit heap and the task holds its address: setting the flag through
  the registry is seen through the queue. The time type is \<open>int\<close> on Android
  (\<^verbatim>\<open>Long\<close> milliseconds) and \<open>real\<close> on iOS (\<^verbatim>\<open>Double\<close>).
\<close>

type_synonym addr = nat

record 't WorkerTask =
  id_task :: string
  message :: string
  timestamp :: 't
  cancelled :: addr

text \<open>The map handed to the JavaScript event emitter: string keys, string or number values.\<close>

datatype jsvalue = JString string | JNumber real

type_synonym params = "(string \<times> jsvalue) list"

type_synonym event = "string \<times> params"

definition createMap :: params where
  "createMap = []"

definition putString :: "string \<Rightarrow> string \<Rightarrow> params \<Rightarrow> params" where
  "putString k v m = AList.update k (JString v) m"

definition putDouble :: "string \<Rightarrow> real \<Rightarrow> params \<Rightarrow> params" where
  "putDouble k v m = AList.update k (JNumber v) m"

definition hasKey :: "params \<Rightarrow> string \<Rightarrow> bool" where
  "hasKey m k = (map_of m k \<noteq> None)"

definition EVENT_WORKER_MESSAGE :: string where
  "EVENT_WORKER_MESSAGE = ''onWorkerMessage''"

text \<open>A Kotlin exception, with its nullable \<^verbatim>\<open>message\<close>.\<close>

datatype exn = Exception "string option"

text \<open>What a bridge method hands to its promise: \<^verbatim>\<open>resolve(value)\<close> or \<^verbatim>\<open>reject(code, message)\<close>.\<close>

datatype 'a promise = Resolve 'a | Reject string string

text \<open>
  The state both engines share. \<open>activeTasks\<close> is an association list with one entry per key
  (\<^verbatim>\<open>mutableMapOf\<close> is a \<^verbatim>\<open>LinkedHashMap\<close>: an assignment to a present key replaces the value in
  place, to a new key appends). \<open>emitted\<close> is the sequence of events handed to the main
  thread's queue, oldest first.
\<close>

record 't engine =
  taskQueue :: "'t WorkerTask list"
  activeTasks :: "(string \<times> 't WorkerTask) list"
  isProcessing :: bool
  heap :: "addr \<Rightarrow> bool"
  nextAddr :: addr
  emitted :: "event list"

section \<open>Operations common to both engines\<close>

text \<open>
  \<^verbatim>\<open>postMessage\<close> (Kotlin lines 197-216, Swift lines 137-159). \<open>uuid\<close> is the string
  \<^verbatim>\<open>UUID.randomUUID().toString()\<close> would return and \<open>now\<close> the clock reading. The new task gets a
  fresh flag holding \<open>False\<close>. Nothing in the body throws, so the \<^verbatim>\<open>catch\<close> branch that rejects the
  promise has no counterpart.
\<close>

definition postMessage ::
  "string \<Rightarrow> string option \<Rightarrow> string \<Rightarrow> 't \<Rightarrow> ('t, 'm) engine_scheme
    \<Rightarrow> string promise \<times> ('t, 'm) engine_scheme" where
  "postMessage msg taskId uuid now s =
     (let finalTaskId = (case taskId of Some i \<Rightarrow> i | None \<Rightarrow> uuid);
          a = nextAddr s;
          task = \<lparr>id_task = finalTaskId, message = msg, timestamp = now, cancelled = a\<rparr>;
          s1 = s\<lparr>heap := (heap s)(a := False), nextAddr := Suc a\<rparr>;
          s2 = s1\<lparr>activeTasks := AList.update finalTaskId task (activeTasks s1)\<rparr>;
          s3 = s2\<lparr>taskQueue := taskQueue s2 @ [task]\<rparr>
      in (Resolve finalTaskId, s3))"

text \<open>\<^verbatim>\<open>cancelTask\<close> (Kotlin lines 222-237, Swift lines 161-182).\<close>

definition cancelTask ::
  "string \<Rightarrow> ('t, 'm) engine_scheme \<Rightarrow> bool promise \<times> ('t, 'm) engine_scheme" where
  "cancelTask taskId s =
     (case map_of (activeTasks s) taskId of
        Some task \<Rightarrow>
          (Resolve True,
           s\<lparr>heap := (heap s)(cancelled task := True),
             activeTasks := AList.delete taskId (activeTasks s)\<rparr>)
      | None \<Rightarrow> (Resolve False, s))"

text \<open>
  \<^verbatim>\<open>cancelAllTasks\<close> (Kotlin lines 243-258): the loop over \<^verbatim>\<open>activeTasks.values\<close> sets each flag
  and counts, then the registry and the queue are cleared. The Swift method (lines 184-202)
  takes \<^verbatim>\<open>activeTasks.count\<close> first and does the same.
\<close>

definition cancelAllTasks ::
  "('t, 'm) engine_scheme \<Rightarrow> int promise \<times> ('t, 'm) engine_scheme" where
  "cancelAllTasks s =
     (let (h, cancelledCount) =
            fold (\<lambda>(k, task) (h, c). (h(cancelled task := True), c + 1))
              (activeTasks s) (heap s, 0)
      in (Resolve cancelledCount, s\<lparr>heap := h, activeTasks := [], taskQueue := []\<rparr>))"

text \<open>\<^verbatim>\<open>getQueueSize\<close> and the bridge method \<^verbatim>\<open>isProcessing\<close> (Kotlin lines 264-282).\<close>

definition getQueueSize :: "('t, 'm) engine_scheme \<Rightarrow> int promise" where
  "getQueueSize s = Resolve (int (length (taskQueue s)))"

definition isProcessing_method :: "('t, 'm) engine_scheme \<Rightarrow> bool promise" where
  "isProcessing_method s = Resolve (isProcessing s)"

section \<open>The reference Processing Function\<close>

text \<open>
  \<^verbatim>\<open>processMessage\<close> (Kotlin lines 147-156, Swift lines 103-110): the simulated delay, then the
  message reversed, then upper-cased, in a string template with the clock reading.

  The library calls \<^verbatim>\<open>reversed().uppercase()\<close> are computed here for payloads of ASCII characters
  only: there the reversal is the reversal of the character list and upper-casing maps \<open>a\<close>..\<open>z\<close>
  to \<open>A\<close>..\<open>Z\<close> and nothing else. For any other payload (upper-casing then reaches letters
  beyond ASCII and can change the length, and the reversal goes by code points) the result of
  the two library calls is the parameter \<open>lib\<close>. In Swift \<^verbatim>\<open>reversed()\<close> goes by grapheme clusters,
  and a carriage return followed by a line feed is one cluster, so a payload with a carriage
  return is left to \<open>lib\<close> as well.
\<close>

definition isAscii :: "char \<Rightarrow> bool" where
  "isAscii c = ((of_char c :: nat) < 128)"

definition uppercaseAsciiChar :: "char \<Rightarrow> char" where
  "uppercaseAsciiChar c =
     (let n = (of_char c :: nat) in if 97 \<le> n \<and> n \<le> 122 then char_of (n - 32) else c)"

definition uppercaseAscii :: "string \<Rightarrow> string" where
  "uppercaseAscii s = map uppercaseAsciiChar s"

definition reversedUppercase :: "(string \<Rightarrow> string) \<Rightarrow> string \<Rightarrow> string" where
  "reversedUppercase lib msg =
     (if list_all isAscii msg then uppercaseAscii (rev msg) else lib msg)"

definition reversedUppercase_ios :: "(string \<Rightarrow> string) \<Rightarrow> string \<Rightarrow> string" where
  "reversedUppercase_ios lib msg =
     (if list_all isAscii msg \<and> CHR 0x0D \<notin> set msg then uppercaseAscii (rev msg) else lib msg)"

text \<open>\<open>toString_long\<close> is the decimal rendering the template applies to the timestamp.\<close>

fun toString_nat :: "nat \<Rightarrow> string" where
  "toString_nat n =
     (if n < 10 then [char_of (48 + n)]
      else toString_nat (n div 10) @ [char_of (48 + n mod 10)])"

declare toString_nat.simps [simp del]

definition toString_long :: "int \<Rightarrow> string" where
  "toString_long i = (if i < 0 then CHR ''-'' # toString_nat (nat (- i)) else toString_nat (nat i))"

text \<open>
  What \<^verbatim>\<open>Thread.sleep(100)\<close> does: it returns after the delay, or it throws
  \<^verbatim>\<open>InterruptedException\<close> (with its message) when the worker thread is interrupted.
\<close>

datatype sleep = Slept | Interrupted "string option"

text \<open>
  The Kotlin \<^verbatim>\<open>processMessage\<close>: an interrupted delay ends the call with the exception, which the
  \<^verbatim>\<open>catch\<close> of \<^verbatim>\<open>processNextTask\<close> receives; otherwise the result string is built. \<open>now\<close> is the
  clock reading taken after the delay.
\<close>

definition processMessage ::
  "string \<Rightarrow> sleep \<Rightarrow> (string \<Rightarrow> string) \<Rightarrow> int \<Rightarrow> exn + string" where
  "processMessage msg sleep lib now =
     (case sleep of
        Interrupted m \<Rightarrow> Inl (Exception m)
      | Slept \<Rightarrow>
          (let processed = reversedUppercase lib msg;
               timestamp = now
           in Inr (''Processed: '' @ processed @ '' (at '' @ toString_long timestamp @ '')'')))"

text \<open>
  The Swift \<^verbatim>\<open>processMessage\<close> is declared \<^verbatim>\<open>throws\<close>, but \<^verbatim>\<open>Thread.sleep(forTimeInterval:)\<close> cannot
  be interrupted and nothing else in the body throws: it always returns. \<open>now\<close> is the
  \<^verbatim>\<open>Int64\<close> of milliseconds.
\<close>

definition processMessage_ios :: "string \<Rightarrow> (string \<Rightarrow> string) \<Rightarrow> int \<Rightarrow> string + string" where
  "processMessage_ios msg lib now =
     (let processed = reversedUppercase_ios lib msg;
          timestamp = now
      in Inr (''Processed: '' @ processed @ '' (at '' @ toString_long timestamp @ '')''))"

section \<open>The Android engine\<close>

text \<open>
  \<open>handlerQueue\<close> counts the copies of the loop's \<^verbatim>\<open>Runnable\<close> waiting in the worker thread's
  handler (\<^verbatim>\<open>startProcessingLoop\<close>, lines 96-104: \<^verbatim>\<open>run\<close> calls \<^verbatim>\<open>processNextTask\<close> and only then
  posts itself again). \<open>running\<close> holds the frames of \<^verbatim>\<open>processNextTask\<close> that are inside
  \<^verbatim>\<open>processMessage\<close>: the claimed task and \<^verbatim>\<open>processingStartTime\<close>.
\<close>

record android = "int engine" +
  handlerQueue :: nat
  running :: "(int WorkerTask \<times> int) list"

text \<open>The state after \<^verbatim>\<open>initialize\<close>: empty structures, the loop posted once.\<close>

definition init :: android where
  "init = \<lparr>taskQueue = [], activeTasks = [], isProcessing = False, heap = (\<lambda>_. False),
            nextAddr = 0, emitted = [], handlerQueue = 1, running = []\<rparr>"

text \<open>\<^verbatim>\<open>sendEventToJS\<close> (lines 161-174) and \<^verbatim>\<open>sendErrorToJS\<close> (lines 179-191); \<open>now\<close> is the clock
  reading taken when the posted block runs on the main thread.\<close>

definition sendEventToJS :: "int WorkerTask \<Rightarrow> string \<Rightarrow> int \<Rightarrow> int \<Rightarrow> android \<Rightarrow> android" where
  "sendEventToJS task result processingTime now s =
     (let params =
            putDouble ''timestamp'' (of_int now)
              (putDouble ''processingTime'' (of_int processingTime)
                (putString ''result'' result
                  (putString ''taskId'' (id_task task) createMap)))
      in s\<lparr>emitted := emitted s @ [(EVENT_WORKER_MESSAGE, params)]\<rparr>)"

definition sendErrorToJS :: "int WorkerTask \<Rightarrow> string \<Rightarrow> int \<Rightarrow> android \<Rightarrow> android" where
  "sendErrorToJS task error now s =
     (let params =
            putDouble ''timestamp'' (of_int now)
              (putString ''error'' error
                (putString ''taskId'' (id_task task) createMap))
      in s\<lparr>emitted := emitted s @ [(EVENT_WORKER_MESSAGE, params)]\<rparr>)"

text \<open>
  \<^verbatim>\<open>processNextTask\<close> (lines 109-141) in two halves, split where it calls \<^verbatim>\<open>processMessage\<close>:
  the calls of the bridge methods run on another thread and can fall between the two.

  \<open>processNextTask_claim\<close> is lines 110-116 and the \<^verbatim>\<open>else\<close> branch of line 139: poll the queue; a
  task that is there and not cancelled is claimed, anything else sets the indicator to false.
\<close>

definition processNextTask_claim :: "int \<Rightarrow> android \<Rightarrow> android" where
  "processNextTask_claim now s =
     (case taskQueue s of
        [] \<Rightarrow> s\<lparr>isProcessing := False\<rparr>
      | task # rest \<Rightarrow>
          (let s1 = s\<lparr>taskQueue := rest\<rparr>
           in if \<not> heap s1 (cancelled task)
              then s1\<lparr>isProcessing := True, running := running s1 @ [(task, now)]\<rparr>
              else s1\<lparr>isProcessing := False\<rparr>))"

text \<open>
  \<open>processNextTask_complete\<close> is lines 117-137, from the return of \<^verbatim>\<open>processMessage\<close> on:
  \<open>outcome\<close> is what the Processing Function did (\<open>Inr\<close> its result, \<open>Inl\<close> the exception it
  threw), \<open>tEnd\<close> and \<open>tEmit\<close> the later clock readings.
\<close>

definition processNextTask_complete ::
  "int WorkerTask \<Rightarrow> int \<Rightarrow> exn + string \<Rightarrow> int \<Rightarrow> int \<Rightarrow> android \<Rightarrow> android" where
  "processNextTask_complete task processingStartTime outcome tEnd tEmit s =
     (let s' =
        (case outcome of
           Inr result \<Rightarrow>
             (let processingTime = tEnd - processingStartTime;
                  s1 = s\<lparr>activeTasks := AList.delete (id_task task) (activeTasks s)\<rparr>
              in if \<not> heap s1 (cancelled task)
                 then sendEventToJS task result processingTime tEmit s1 else s1)
         | Inl (Exception m) \<Rightarrow>
             if \<not> heap s (cancelled task)
             then sendErrorToJS task (case m of Some x \<Rightarrow> x | None \<Rightarrow> ''Unknown error'') tEmit s
             else s)
      in s'\<lparr>isProcessing := (taskQueue s' \<noteq> [])\<rparr>)"

text \<open>
  What can happen to the Android engine, one atomic step each: the three mutating bridge
  methods, the worker thread taking the loop's \<^verbatim>\<open>Runnable\<close> from its handler (\<open>Begin\<close>), and
  the Processing Function of the claimed task returning or throwing (\<open>End\<close>). A \<open>Begin\<close> with
  nothing in the handler and an \<open>End\<close> with nothing running are not possible and leave the
  state as it is. The \<^verbatim>\<open>Runnable\<close> is posted again when \<^verbatim>\<open>processNextTask\<close> has returned.
\<close>

datatype action =
    Post string "string option" string int
  | Cancel string
  | CancelAll
  | Begin int
  | End "exn + string" int int

definition postDelayed :: "android \<Rightarrow> android" where
  "postDelayed s = s\<lparr>handlerQueue := Suc (handlerQueue s)\<rparr>"

fun step :: "android \<Rightarrow> action \<Rightarrow> android" where
  "step s (Post msg taskId uuid now) = snd (postMessage msg taskId uuid now s)"
| "step s (Cancel taskId) = snd (cancelTask taskId s)"
| "step s CancelAll = snd (cancelAllTasks s)"
| "step s (Begin now) =
     (case handlerQueue s of
        0 \<Rightarrow> s
      | Suc n \<Rightarrow>
          (let s1 = processNextTask_claim now (s\<lparr>handlerQueue := n\<rparr>)
           in if length (running s1) = length (running s) then postDelayed s1 else s1))"
| "step s (End outcome tEnd tEmit) =
     (case running s of
        [] \<Rightarrow> s
      | (task, t0) # rest \<Rightarrow>
          postDelayed (processNextTask_complete task t0 outcome tEnd tEmit (s\<lparr>running := rest\<rparr>)))"

fun run :: "android \<Rightarrow> action list \<Rightarrow> android" where
  "run s [] = s"
| "run s (a # as) = run (step s a) as"

section \<open>The iOS engine\<close>

text \<open>
  Every access to the shared state is a block on the serial queue \<^verbatim>\<open>serialQueue\<close>, so each block
  is one atomic step. The timer calls \<^verbatim>\<open>processNextTask\<close> every 10 ms; a claimed task is handed
  to \<^verbatim>\<open>backgroundQueue\<close>, the global concurrent queue, where \<^verbatim>\<open>processTask\<close> runs it.
  \<open>dispatched\<close> holds the tasks handed over whose \<^verbatim>\<open>processTask\<close> has not returned, and
  \<open>removals\<close> the blocks \<^verbatim>\<open>activeTasks.removeValue(forKey:)\<close> that \<^verbatim>\<open>processTask\<close> has put on the
  serial queue and that have not run yet.
\<close>

record ios = "real engine" +
  dispatched :: "real WorkerTask list"
  removals :: "string list"

definition init_ios :: ios where
  "init_ios = \<lparr>taskQueue = [], activeTasks = [], isProcessing = False, heap = (\<lambda>_. False),
                nextAddr = 0, emitted = [], dispatched = [], removals = []\<rparr>"

text \<open>\<^verbatim>\<open>sendEventToJS\<close> and \<^verbatim>\<open>sendErrorToJS\<close> of the Swift class (lines 112-135).\<close>

definition sendEventToJS_ios :: "real WorkerTask \<Rightarrow> string \<Rightarrow> real \<Rightarrow> real \<Rightarrow> ios \<Rightarrow> ios" where
  "sendEventToJS_ios task result processingTime now s =
     (let params =
            putDouble ''timestamp'' now
              (putDouble ''processingTime'' processingTime
                (putString ''result'' result
                  (putString ''taskId'' (id_task task) createMap)))
      in s\<lparr>emitted := emitted s @ [(EVENT_WORKER_MESSAGE, params)]\<rparr>)"

definition sendErrorToJS_ios :: "real WorkerTask \<Rightarrow> string \<Rightarrow> real \<Rightarrow> ios \<Rightarrow> ios" where
  "sendErrorToJS_ios task error now s =
     (let params =
            putDouble ''timestamp'' now
              (putString ''error'' error
                (putString ''taskId'' (id_task task) createMap))
      in s\<lparr>emitted := emitted s @ [(EVENT_WORKER_MESSAGE, params)]\<rparr>)"

text \<open>The block of \<^verbatim>\<open>processNextTask\<close> (Swift lines 57-79).\<close>

definition processNextTask_ios :: "ios \<Rightarrow> ios" where
  "processNextTask_ios s =
     (case taskQueue s of
        [] \<Rightarrow> s\<lparr>isProcessing := False\<rparr>
      | task # rest \<Rightarrow>
          (let s1 = s\<lparr>taskQueue := rest\<rparr>
           in if heap s1 (cancelled task)
              then s1\<lparr>activeTasks := AList.delete (id_task task) (activeTasks s1)\<rparr>
              else s1\<lparr>isProcessing := True, dispatched := dispatched s1 @ [task]\<rparr>))"

text \<open>
  \<^verbatim>\<open>processTask\<close> (Swift lines 81-101) from the return of \<^verbatim>\<open>processMessage\<close> on. \<open>outcome\<close> is
  \<open>Inr\<close> the result or \<open>Inl\<close> the \<^verbatim>\<open>localizedDescription\<close> of the error thrown; the clock readings
  are in seconds.
\<close>

definition processTask ::
  "real WorkerTask \<Rightarrow> real \<Rightarrow> string + string \<Rightarrow> real \<Rightarrow> real \<Rightarrow> ios \<Rightarrow> ios" where
  "processTask task processingStartTime outcome tEnd tEmit s =
     (case outcome of
        Inr result \<Rightarrow>
          (let processingTime = (tEnd - processingStartTime) * 1000;
               s1 = s\<lparr>removals := removals s @ [id_task task]\<rparr>
           in if \<not> heap s1 (cancelled task)
              then sendEventToJS_ios task result processingTime tEmit s1 else s1)
      | Inl description \<Rightarrow>
          if \<not> heap s (cancelled task) then sendErrorToJS_ios task description tEmit s else s)"

text \<open>
  The steps of the iOS engine: the bridge methods, a timer tick, the \<^verbatim>\<open>processTask\<close> of the
  \<open>k\<close>-th dispatched task coming back from \<^verbatim>\<open>processMessage\<close> (the concurrent queue fixes no order
  among them), and the serial queue running the oldest removal block.
\<close>

datatype action_ios =
    PostI string "string option" string real
  | CancelI string
  | CancelAllI
  | Tick
  | Finish nat "string + string" real real real
  | Removal

fun step_ios :: "ios \<Rightarrow> action_ios \<Rightarrow> ios" where
  "step_ios s (PostI msg taskId uuid now) = snd (postMessage msg taskId uuid now s)"
| "step_ios s (CancelI taskId) = snd (cancelTask taskId s)"
| "step_ios s CancelAllI = snd (cancelAllTasks s)"
| "step_ios s Tick = processNextTask_ios s"
| "step_ios s (Finish k outcome t0 tEnd tEmit) =
     (if k < length (dispatched s)
      then processTask (dispatched s ! k) t0 outcome tEnd tEmit
             (s\<lparr>dispatched := take k (dispatched s) @ drop (Suc k) (dispatched s)\<rparr>)
      else s)"
| "step_ios s Removal =
     (case removals s of
        [] \<Rightarrow> s
      | k # rest \<Rightarrow> s\<lparr>removals := rest, activeTasks := AList.delete k (activeTasks s)\<rparr>)"

fun run_ios :: "ios \<Rightarrow> action_ios list \<Rightarrow> ios" where
  "run_ios s [] = s"
| "run_ios s (a # as) = run_ios (step_ios s a) as"

section \<open>Observations on states and traces\<close>

text \<open>The \<^verbatim>\<open>taskId\<close> entry of an event, and the events emitted for one id.\<close>

definition taskIdOf :: "event \<Rightarrow> jsvalue option" where
  "taskIdOf e = map_of (snd e) ''taskId''"

definition eventsFor :: "string \<Rightarrow> ('t, 'm) engine_scheme \<Rightarrow> event list" where
  "eventsFor i s = filter (\<lambda>e. taskIdOf e = Some (JString i)) (emitted s)"

text \<open>The id a \<open>Post\<close> enqueues under, and the ids a trace enqueues, in order.\<close>

fun postedId :: "action \<Rightarrow> string list" where
  "postedId (Post msg taskId uuid now) = [case taskId of Some i \<Rightarrow> i | None \<Rightarrow> uuid]"
| "postedId _ = []"

definition postedIds :: "action list \<Rightarrow> string list" where
  "postedIds tr = concat (map postedId tr)"

fun isCancel :: "action \<Rightarrow> bool" where
  "isCancel (Cancel i) = True"
| "isCancel CancelAll = True"
| "isCancel _ = False"

text \<open>The ids of the tasks an Android state still owes an outcome: the one in
  \<^verbatim>\<open>processMessage\<close>, then the queue from its head.\<close>

definition pendingIds :: "android \<Rightarrow> string list" where
  "pendingIds s = map (id_task \<circ> fst) (running s) @ map id_task (taskQueue s)"

text \<open>The two shapes of an event's map: what \<^verbatim>\<open>sendEventToJS\<close> builds and what
  \<^verbatim>\<open>sendErrorToJS\<close> builds.\<close>

definition successShape :: "event \<Rightarrow> bool" where
  "successShape e =
     (fst e = EVENT_WORKER_MESSAGE \<and> hasKey (snd e) ''taskId'' \<and> hasKey (snd e) ''timestamp''
      \<and> hasKey (snd e) ''result'' \<and> hasKey (snd e) ''processingTime''
      \<and> \<not> hasKey (snd e) ''error'')"

definition failureShape :: "event \<Rightarrow> bool" where
  "failureShape e =
     (fst e = EVENT_WORKER_MESSAGE \<and> hasKey (snd e) ''taskId'' \<and> hasKey (snd e) ''timestamp''
      \<and> hasKey (snd e) ''error''
      \<and> \<not> hasKey (snd e) ''result'' \<and> \<not> hasKey (snd e) ''processingTime'')"

text \<open>Every flag a state refers to has been allocated: its address is below \<open>nextAddr\<close>.\<close>

definition allocated :: "android \<Rightarrow> bool" where
  "allocated s =
     (list_all (\<lambda>t. cancelled t < nextAddr s) (taskQueue s)
      \<and> list_all (\<lambda>(k, t). cancelled t < nextAddr s) (activeTasks s)
      \<and> list_all (\<lambda>(t, t0). cancelled t < nextAddr s) (running s))"

text \<open>The loop's \<^verbatim>\<open>Runnable\<close> is either waiting in the handler or inside \<^verbatim>\<open>processNextTask\<close>.\<close>

definition loopInv :: "android \<Rightarrow> bool" where
  "loopInv s = (handlerQueue s + length (running s) = 1)"

text \<open>Reading a decimal numeral back, to check \<open>toString_nat\<close> against.\<close>

definition fromDecimal :: "string \<Rightarrow> nat" where
  "fromDecimal ds = foldl (\<lambda>acc c. 10 * acc + (of_char c - 48)) 0 ds"

text \<open>The lower-case letters, which upper-casing must remove.\<close>

definition isLowerCase :: "char \<Rightarrow> bool" where
  "isLowerCase c = (97 \<le> (of_char c :: nat) \<and> (of_char c :: nat) \<le> 122)"

text \<open>Every event emitted so far has one of the two shapes.\<close>

definition shaped :: "android \<Rightarrow> bool" where
  "shaped s = list_all (\<lambda>e. successShape e \<or> failureShape e) (emitted s)"

text \<open>
  The ids in the order in which the Android engine has delivered or will deliver them: the
  events emitted, then the tasks still pending. A state is \<open>uncancelled\<close> when no flag is set.
\<close>

definition deliveryOrder :: "android \<Rightarrow> jsvalue option list" where
  "deliveryOrder s = map taskIdOf (emitted s) @ map (\<lambda>i. Some (JString i)) (pendingIds s)"

definition uncancelled :: "android \<Rightarrow> bool" where
  "uncancelled s = (heap s = (\<lambda>_. False))"

text \<open>
  The id \<open>i\<close> is silenced in a state when the registry has no entry for it and every task
  carrying it, queued or being processed, has its flag set.
\<close>

definition silenced :: "string \<Rightarrow> android \<Rightarrow> bool" where
  "silenced i s =
     (map_of (activeTasks s) i = None
      \<and> list_all (\<lambda>t. id_task t = i \<longrightarrow> heap s (cancelled t)) (taskQueue s)
      \<and> list_all (\<lambda>(t, t0). id_task t = i \<longrightarrow> heap s (cancelled t)) (running s))"

text \<open>The same observations and invariants for the iOS engine.\<close>

definition shaped_ios :: "ios \<Rightarrow> bool" where
  "shaped_ios s = list_all (\<lambda>e. successShape e \<or> failureShape e) (emitted s)"

definition allocated_ios :: "ios \<Rightarrow> bool" where
  "allocated_ios s =
     (list_all (\<lambda>t. cancelled t < nextAddr s) (taskQueue s)
      \<and> list_all (\<lambda>(k, t). cancelled t < nextAddr s) (activeTasks s)
      \<and> list_all (\<lambda>t. cancelled t < nextAddr s) (dispatched s))"

definition silenced_ios :: "string \<Rightarrow> ios \<Rightarrow> bool" where
  "silenced_ios i s =
     (map_of (activeTasks s) i = None
      \<and> list_all (\<lambda>t. id_task t = i \<longrightarrow> heap s (cancelled t)) (taskQueue s)
      \<and> list_all (\<lambda>t. id_task t = i \<longrightarrow> heap s (cancelled t)) (dispatched s))"

fun postedId_ios :: "action_ios \<Rightarrow> string list" where
  "postedId_ios (PostI msg taskId uuid now) = [case taskId of Some i \<Rightarrow> i | None \<Rightarrow> uuid]"
| "postedId_ios _ = []"

definition postedIds_ios :: "action_ios list \<Rightarrow> string list" where
  "postedIds_ios tr = concat (map postedId_ios tr)"

section \<open>Basic facts about the operations\<close>

lemma cancelAll_fold:
  "fold (\<lambda>(k, task) (h, c). (h(cancelled task := True), c + 1)) xs (h0, c0)
     = ((\<lambda>a. h0 a \<or> a \<in> cancelled ` snd ` set xs), c0 + int (length xs))"
proof (induction xs arbitrary: h0 c0)
  case Nil
  then show ?case by simp
next
  case (Cons x xs)
  obtain k t where x: "x = (k, t)" by (cases x)
  have "fold (\<lambda>(k, task) (h, c). (h(cancelled task := True), c + 1)) (x # xs) (h0, c0)
      = fold (\<lambda>(k, task) (h, c). (h(cancelled task := True), c + 1)) xs (h0(cancelled t := True), c0 + 1)"
    unfolding x by (simp only: fold_simps split_conv)
  also have "\<dots> = ((\<lambda>a. (h0(cancelled t := True)) a \<or> a \<in> cancelled ` snd ` set xs), (c0 + 1) + int (length xs))"
    by (rule Cons.IH)
  also have "\<dots> = ((\<lambda>a. h0 a \<or> a \<in> cancelled ` snd ` set (x # xs)), c0 + int (length (x # xs)))"
    by (auto simp: fun_eq_iff x)
  finally show ?case .
qed

lemma cancelAllTasks_result:
  "cancelAllTasks s =
     (Resolve (int (length (activeTasks s))),
      s\<lparr>heap := (\<lambda>a. heap s a \<or> a \<in> cancelled ` snd ` set (activeTasks s)),
        activeTasks := [], taskQueue := []\<rparr>)"
  by (simp add: cancelAllTasks_def cancelAll_fold)

lemma postMessage_result:
  "postMessage msg taskId uuid now s =
     (Resolve (case taskId of Some i \<Rightarrow> i | None \<Rightarrow> uuid),
      s\<lparr>heap := (heap s)(nextAddr s := False), nextAddr := Suc (nextAddr s),
        activeTasks :=
          AList.update (case taskId of Some i \<Rightarrow> i | None \<Rightarrow> uuid)
            \<lparr>id_task = (case taskId of Some i \<Rightarrow> i | None \<Rightarrow> uuid), message = msg,
               timestamp = now, cancelled = nextAddr s\<rparr> (activeTasks s),
        taskQueue := taskQueue s @
          [\<lparr>id_task = (case taskId of Some i \<Rightarrow> i | None \<Rightarrow> uuid), message = msg,
             timestamp = now, cancelled = nextAddr s\<rparr>]\<rparr>)"
  by (simp add: postMessage_def Let_def)

lemmas eval_defs =
  init_def postMessage_result cancelTask_def cancelAllTasks_result processNextTask_claim_def
  processNextTask_complete_def postDelayed_def sendEventToJS_def sendErrorToJS_def
  putString_def putDouble_def createMap_def EVENT_WORKER_MESSAGE_def Let_def

lemmas eval_ios_defs =
  init_ios_def postMessage_result cancelTask_def cancelAllTasks_result processNextTask_ios_def
  processTask_def sendEventToJS_ios_def sendErrorToJS_ios_def
  putString_def putDouble_def createMap_def EVENT_WORKER_MESSAGE_def Let_def

lemma fromDecimal_toString_nat: "fromDecimal (toString_nat n) = n"
proof (induction n rule: toString_nat.induct)
  case (1 n)
  show ?case
  proof (cases "n < 10")
    case True
    then show ?thesis by (subst toString_nat.simps) (simp add: fromDecimal_def)
  next
    case False
    have m: "n mod 10 < 10" by simp
    have "fromDecimal (toString_nat n) = 10 * fromDecimal (toString_nat (n div 10)) + n mod 10"
      using False m by (subst toString_nat.simps) (simp add: fromDecimal_def)
    with 1 False show ?thesis by simp
  qed
qed

lemma uppercaseAsciiChar_not_lower: "\<not> isLowerCase (uppercaseAsciiChar c)"
proof -
  define n where "n = (of_char c :: nat)"
  show ?thesis
  proof (cases "97 \<le> n \<and> n \<le> 122")
    case True
    then have "(n - 32) mod 256 = n - 32" and "n - 32 < 97" by auto
    with True show ?thesis
      by (simp add: isLowerCase_def uppercaseAsciiChar_def Let_def n_def [symmetric])
  next
    case False
    then show ?thesis
      by (auto simp: isLowerCase_def uppercaseAsciiChar_def Let_def n_def [symmetric])
  qed
qed

lemma uppercaseAsciiChar_ascii: "isAscii c \<Longrightarrow> isAscii (uppercaseAsciiChar c)"
proof -
  define n where "n = (of_char c :: nat)"
  assume "isAscii c"
  then have n: "n < 128" by (simp add: isAscii_def n_def)
  show ?thesis
  proof (cases "97 \<le> n \<and> n \<le> 122")
    case True
    then have "(n - 32) mod 256 = n - 32" and "n - 32 < 128" by auto
    with True show ?thesis
      by (simp add: isAscii_def uppercaseAsciiChar_def Let_def n_def [symmetric])
  next
    case False
    with n show ?thesis
      by (auto simp: isAscii_def uppercaseAsciiChar_def Let_def n_def [symmetric])
  qed
qed

lemma uppercaseAsciiChar_other: "\<not> isLowerCase c \<Longrightarrow> uppercaseAsciiChar c = c"
  by (auto simp: isLowerCase_def uppercaseAsciiChar_def Let_def)

lemma uppercaseAsciiChar_idem: "uppercaseAsciiChar (uppercaseAsciiChar c) = uppercaseAsciiChar c"
  using uppercaseAsciiChar_not_lower [of c] by (rule uppercaseAsciiChar_other)

lemma processMessage_example:
  "processMessage ''Hello'' Slept lib 1723 = Inr ''Processed: OLLEH (at 1723)''"
proof -
  have a: "list_all isAscii ''Hello''" by code_simp
  have u: "uppercaseAscii (rev ''Hello'') = ''OLLEH''" by code_simp
  have t: "toString_long 1723 = ''1723''" by code_simp
  have "reversedUppercase lib ''Hello'' = ''OLLEH''"
    unfolding reversedUppercase_def using a u by (simp only: if_True)
  then show ?thesis by (simp add: processMessage_def t)
qed

lemma claim_running:
  "running (processNextTask_claim now s) = running s
   \<or> (\<exists>task. running (processNextTask_claim now s) = running s @ [(task, now)])"
  by (simp add: processNextTask_claim_def Let_def split: list.split)

lemma claim_handlerQueue [simp]:
  "handlerQueue (processNextTask_claim now s) = handlerQueue s"
  by (simp add: processNextTask_claim_def Let_def split: list.split)

lemma complete_loop [simp]:
  "handlerQueue (processNextTask_complete task t0 outcome tEnd tEmit s) = handlerQueue s"
  "running (processNextTask_complete task t0 outcome tEnd tEmit s) = running s"
  by (simp_all add: processNextTask_complete_def Let_def sendEventToJS_def sendErrorToJS_def
      split: sum.split exn.split)

lemma complete_frame [simp]:
  "taskQueue (processNextTask_complete task t0 outcome tEnd tEmit s) = taskQueue s"
  "heap (processNextTask_complete task t0 outcome tEnd tEmit s) = heap s"
  "nextAddr (processNextTask_complete task t0 outcome tEnd tEmit s) = nextAddr s"
  by (simp_all add: processNextTask_complete_def Let_def sendEventToJS_def sendErrorToJS_def
      split: sum.split exn.split)

lemma claim_frame [simp]:
  "heap (processNextTask_claim now s) = heap s"
  "nextAddr (processNextTask_claim now s) = nextAddr s"
  "activeTasks (processNextTask_claim now s) = activeTasks s"
  by (simp_all add: processNextTask_claim_def Let_def split: list.split)

lemma claim_cases:
  "(taskQueue s = [] \<and> taskQueue (processNextTask_claim now s) = []
      \<and> running (processNextTask_claim now s) = running s)
   \<or> (\<exists>t rest. taskQueue s = t # rest \<and> heap s (cancelled t)
        \<and> taskQueue (processNextTask_claim now s) = rest
        \<and> running (processNextTask_claim now s) = running s)
   \<or> (\<exists>t rest. taskQueue s = t # rest \<and> \<not> heap s (cancelled t)
        \<and> taskQueue (processNextTask_claim now s) = rest
        \<and> running (processNextTask_claim now s) = running s @ [(t, now)])"
  by (cases "taskQueue s") (simp_all add: processNextTask_claim_def Let_def)

lemma sendEventToJS_shape:
  "emitted (sendEventToJS task result processingTime now s) =
     emitted s @ [(''onWorkerMessage'',
        [(''taskId'', JString (id_task task)), (''result'', JString result),
         (''processingTime'', JNumber (of_int processingTime)),
         (''timestamp'', JNumber (of_int now))])]"
  by (simp add: sendEventToJS_def putString_def putDouble_def createMap_def
      EVENT_WORKER_MESSAGE_def)

lemma sendErrorToJS_shape:
  "emitted (sendErrorToJS task error now s) =
     emitted s @ [(''onWorkerMessage'',
        [(''taskId'', JString (id_task task)), (''error'', JString error),
         (''timestamp'', JNumber (of_int now))])]"
  by (simp add: sendErrorToJS_def putString_def putDouble_def createMap_def
      EVENT_WORKER_MESSAGE_def)

lemma successShape_event:
  "successShape (''onWorkerMessage'',
        [(''taskId'', a), (''result'', b), (''processingTime'', c), (''timestamp'', d)])"
  by (simp add: successShape_def hasKey_def EVENT_WORKER_MESSAGE_def)

lemma failureShape_event:
  "failureShape (''onWorkerMessage'', [(''taskId'', a), (''error'', b), (''timestamp'', d)])"
  by (simp add: failureShape_def hasKey_def EVENT_WORKER_MESSAGE_def)

lemma complete_emitted:
  "emitted (processNextTask_complete task t0 outcome tEnd tEmit s) =
     emitted s @
       (if heap s (cancelled task) then []
        else [case outcome of
                Inr result \<Rightarrow>
                  (''onWorkerMessage'',
                   [(''taskId'', JString (id_task task)), (''result'', JString result),
                    (''processingTime'', JNumber (of_int (tEnd - t0))),
                    (''timestamp'', JNumber (of_int tEmit))])
              | Inl e \<Rightarrow>
                  (''onWorkerMessage'',
                   [(''taskId'', JString (id_task task)),
                    (''error'', JString (case e of Exception m \<Rightarrow>
                        (case m of Some x \<Rightarrow> x | None \<Rightarrow> ''Unknown error''))),
                    (''timestamp'', JNumber (of_int tEmit))])])"
  by (simp add: processNextTask_complete_def Let_def sendEventToJS_shape sendErrorToJS_shape
      split: sum.split exn.split)

lemma claim_emitted [simp]: "emitted (processNextTask_claim now s) = emitted s"
  by (simp add: processNextTask_claim_def Let_def split: list.split)

lemma step_emitted_other:
  "emitted (step s (Post msg taskId uuid now)) = emitted s"
  "emitted (step s (Cancel i)) = emitted s"
  "emitted (step s CancelAll) = emitted s"
  "emitted (step s (Begin now)) = emitted s"
  by (simp_all add: postMessage_result cancelTask_def cancelAllTasks_result postDelayed_def
      Let_def split: option.split nat.split)

lemma set_update_subset: "set (AList.update k v al) \<subseteq> insert (k, v) (set al)"
  by (induction al) auto

lemma set_delete_subset: "set (AList.delete k al) \<subseteq> set al"
  by (auto simp: AList.delete_eq)

lemma complete_activeTasks:
  "set (activeTasks (processNextTask_complete task t0 outcome tEnd tEmit s)) \<subseteq> set (activeTasks s)"
  "map_of (activeTasks s) i = None \<Longrightarrow>
     map_of (activeTasks (processNextTask_complete task t0 outcome tEnd tEmit s)) i = None"
  using set_delete_subset [of "id_task task" "activeTasks s"]
  by (auto simp: processNextTask_complete_def Let_def sendEventToJS_def sendErrorToJS_def
      delete_conv' split: sum.split exn.split)

lemma failure_keeps_registry:
  "activeTasks (processNextTask_complete task t0 (Inl e) tEnd tEmit s) = activeTasks s"
  "activeTasks (processNextTask_complete task t0 (Inr r) tEnd tEmit s)
     = AList.delete (id_task task) (activeTasks s)"
  "removals (processTask task' t0' (Inl d) tEnd' tEmit' b) = removals b"
  "removals (processTask task' t0' (Inr r) tEnd' tEmit' b) = removals b @ [id_task task']"
  by (simp_all add: processNextTask_complete_def processTask_def Let_def sendEventToJS_def
      sendErrorToJS_def sendEventToJS_ios_def sendErrorToJS_ios_def split: exn.split)

lemma processTask_emitted:
  "emitted (processTask task t0 outcome tEnd tEmit s) =
     emitted s @
       (if heap s (cancelled task) then []
        else [case outcome of
                Inr result \<Rightarrow>
                  (''onWorkerMessage'',
                   [(''taskId'', JString (id_task task)), (''result'', JString result),
                    (''processingTime'', JNumber ((tEnd - t0) * 1000)),
                    (''timestamp'', JNumber tEmit)])
              | Inl description \<Rightarrow>
                  (''onWorkerMessage'',
                   [(''taskId'', JString (id_task task)), (''error'', JString description),
                    (''timestamp'', JNumber tEmit)])])"
  by (simp add: processTask_def Let_def sendEventToJS_ios_def sendErrorToJS_ios_def
      putString_def putDouble_def createMap_def EVENT_WORKER_MESSAGE_def split: sum.split)

lemma processTask_frame [simp]:
  "taskQueue (processTask task t0 outcome tEnd tEmit s) = taskQueue s"
  "heap (processTask task t0 outcome tEnd tEmit s) = heap s"
  "nextAddr (processTask task t0 outcome tEnd tEmit s) = nextAddr s"
  "activeTasks (processTask task t0 outcome tEnd tEmit s) = activeTasks s"
  "dispatched (processTask task t0 outcome tEnd tEmit s) = dispatched s"
  by (simp_all add: processTask_def Let_def sendEventToJS_ios_def sendErrorToJS_ios_def
      split: sum.split)

lemma tick_frame [simp]:
  "heap (processNextTask_ios s) = heap s"
  "nextAddr (processNextTask_ios s) = nextAddr s"
  "emitted (processNextTask_ios s) = emitted s"
  by (simp_all add: processNextTask_ios_def Let_def split: list.split)

lemma tick_cases:
  "(taskQueue s = [] \<and> taskQueue (processNextTask_ios s) = []
      \<and> dispatched (processNextTask_ios s) = dispatched s
      \<and> activeTasks (processNextTask_ios s) = activeTasks s)
   \<or> (\<exists>t rest. taskQueue s = t # rest \<and> heap s (cancelled t)
        \<and> taskQueue (processNextTask_ios s) = rest
        \<and> dispatched (processNextTask_ios s) = dispatched s
        \<and> activeTasks (processNextTask_ios s) = AList.delete (id_task t) (activeTasks s))
   \<or> (\<exists>t rest. taskQueue s = t # rest \<and> \<not> heap s (cancelled t)
        \<and> taskQueue (processNextTask_ios s) = rest
        \<and> dispatched (processNextTask_ios s) = dispatched s @ [t]
        \<and> activeTasks (processNextTask_ios s) = activeTasks s)"
  by (cases "taskQueue s") (simp_all add: processNextTask_ios_def Let_def)

lemma step_ios_emitted_other:
  "emitted (step_ios s (PostI msg taskId uuid now)) = emitted s"
  "emitted (step_ios s (CancelI i)) = emitted s"
  "emitted (step_ios s CancelAllI) = emitted s"
  "emitted (step_ios s Tick) = emitted s"
  "emitted (step_ios s Removal) = emitted s"
  by (simp_all add: postMessage_result cancelTask_def cancelAllTasks_result
      split: option.split list.split)

lemma set_remove_nth: "set (take k xs @ drop (Suc k) xs) \<subseteq> set xs"
  using set_take_subset [of k xs] set_drop_subset [of "Suc k" xs] by auto

section \<open>Invariants of the Android engine\<close>

text \<open>The loop's \<^verbatim>\<open>Runnable\<close> is in exactly one place.\<close>

lemma loopInv_step: "loopInv s \<Longrightarrow> loopInv (step s a)"
proof (cases a)
  case (Post msg taskId uuid now)
  then show "loopInv s \<Longrightarrow> loopInv (step s a)"
    by (simp add: loopInv_def postMessage_result)
next
  case (Cancel i)
  then show "loopInv s \<Longrightarrow> loopInv (step s a)"
    by (simp add: loopInv_def cancelTask_def split: option.split)
next
  case CancelAll
  then show "loopInv s \<Longrightarrow> loopInv (step s a)"
    by (simp add: loopInv_def cancelAllTasks_result)
next
  case (Begin now)
  assume inv: "loopInv s"
  show "loopInv (step s a)"
  proof (cases "handlerQueue s")
    case 0
    with inv Begin show ?thesis by simp
  next
    case (Suc n)
    let ?s1 = "processNextTask_claim now (s\<lparr>handlerQueue := n\<rparr>)"
    from claim_running [of now "s\<lparr>handlerQueue := n\<rparr>"]
    show ?thesis
      using inv Suc Begin by (auto simp: loopInv_def Let_def postDelayed_def)
  qed
next
  case (End outcome tEnd tEmit)
  assume inv: "loopInv s"
  show "loopInv (step s a)"
    using inv End by (cases "running s") (auto simp: loopInv_def postDelayed_def)
qed

lemma loopInv_run: "loopInv s \<Longrightarrow> loopInv (run s tr)"
  by (induction tr arbitrary: s) (simp_all add: loopInv_step)

lemma loopInv_init: "loopInv init"
  by (simp add: loopInv_def init_def)

text \<open>Events keep their shape.\<close>

lemma shaped_step: "shaped s \<Longrightarrow> shaped (step s a)"
proof (cases a)
  case (End outcome tEnd tEmit)
  assume "shaped s"
  then show "shaped (step s a)"
    unfolding End
    by (cases "running s")
       (auto simp: shaped_def postDelayed_def complete_emitted successShape_event
          failureShape_event split: sum.split)
qed (simp_all add: shaped_def step_emitted_other del: step.simps)

lemma shaped_run: "shaped s \<Longrightarrow> shaped (run s tr)"
  by (induction tr arbitrary: s) (simp_all add: shaped_step)

text \<open>Without cancellation no flag is ever set, and the delivery order only grows at its end.\<close>

lemma uncancelled_step:
  "uncancelled s \<Longrightarrow> \<not> isCancel a \<Longrightarrow> uncancelled (step s a)"
proof (cases a)
  case (Post msg taskId uuid now)
  assume "uncancelled s"
  then show "uncancelled (step s a)"
    unfolding Post by (auto simp: uncancelled_def postMessage_result fun_eq_iff)
next
  case (Begin now)
  assume "uncancelled s"
  then show "uncancelled (step s a)"
    unfolding Begin
    by (simp add: uncancelled_def processNextTask_claim_def postDelayed_def Let_def
        split: nat.split list.split)
next
  case (End outcome tEnd tEmit)
  assume "uncancelled s"
  then show "uncancelled (step s a)"
    unfolding End
    by (simp add: uncancelled_def processNextTask_complete_def postDelayed_def Let_def
        sendEventToJS_def sendErrorToJS_def split: list.split sum.split exn.split)
qed simp_all

lemma order_step:
  assumes "uncancelled s" and "\<not> isCancel a"
  shows "deliveryOrder (step s a) = deliveryOrder s @ map (\<lambda>i. Some (JString i)) (postedId a)"
proof (cases a)
  case (Post msg taskId uuid now)
  show ?thesis
    unfolding Post by (simp add: deliveryOrder_def pendingIds_def postMessage_result)
next
  case (Begin now)
  from assms(1) show ?thesis
    unfolding Begin
    by (simp add: deliveryOrder_def pendingIds_def uncancelled_def processNextTask_claim_def
        postDelayed_def Let_def split: nat.split list.split)
next
  case (End outcome tEnd tEmit)
  from assms(1) show ?thesis
    unfolding End
    by (cases "running s")
       (auto simp: deliveryOrder_def pendingIds_def uncancelled_def complete_emitted
          postDelayed_def taskIdOf_def split: sum.split)
qed (use assms(2) in simp_all)

lemma order_run:
  "uncancelled s \<Longrightarrow> list_all (\<lambda>a. \<not> isCancel a) tr \<Longrightarrow>
     deliveryOrder (run s tr) = deliveryOrder s @ map (\<lambda>i. Some (JString i)) (postedIds tr)"
proof (induction tr arbitrary: s)
  case Nil
  then show ?case by (simp add: postedIds_def)
next
  case (Cons a tr)
  from Cons.prems have a: "\<not> isCancel a" and tr: "list_all (\<lambda>a. \<not> isCancel a) tr" by simp_all
  from Cons.prems(1) a have u: "uncancelled (step s a)" by (rule uncancelled_step)
  have "deliveryOrder (run s (a # tr)) = deliveryOrder (run (step s a) tr)" by simp
  also have "\<dots> = deliveryOrder (step s a) @ map (\<lambda>i. Some (JString i)) (postedIds tr)"
    using u tr by (rule Cons.IH)
  also have "\<dots> = deliveryOrder s @ map (\<lambda>i. Some (JString i)) (postedIds (a # tr))"
    using order_step [OF Cons.prems(1) a] by (simp add: postedIds_def)
  finally show ?case .
qed

text \<open>Flags are allocated before they are used, so a new task never shares one.\<close>

lemma allocated_iff:
  "allocated s \<longleftrightarrow>
     (\<forall>t\<in>set (taskQueue s). cancelled t < nextAddr s)
     \<and> (\<forall>x\<in>set (activeTasks s). cancelled (snd x) < nextAddr s)
     \<and> (\<forall>x\<in>set (running s). cancelled (fst x) < nextAddr s)"
  by (simp add: allocated_def list_all_iff split_beta)

lemma silenced_iff:
  "silenced i s \<longleftrightarrow>
     map_of (activeTasks s) i = None
     \<and> (\<forall>t\<in>set (taskQueue s). id_task t = i \<longrightarrow> heap s (cancelled t))
     \<and> (\<forall>x\<in>set (running s). id_task (fst x) = i \<longrightarrow> heap s (cancelled (fst x)))"
  by (simp add: silenced_def list_all_iff split_beta)

lemma allocated_step: "allocated s \<Longrightarrow> allocated (step s a)"
proof (cases a)
  case (Post msg taskId uuid now)
  assume "allocated s"
  then show "allocated (step s a)"
    using set_update_subset
      [of "case taskId of Some i \<Rightarrow> i | None \<Rightarrow> uuid"
          "\<lparr>id_task = (case taskId of Some i \<Rightarrow> i | None \<Rightarrow> uuid), message = msg,
             timestamp = now, cancelled = nextAddr s\<rparr>" "activeTasks s"]
    unfolding Post allocated_iff
    by (fastforce simp: postMessage_result less_Suc_eq)
next
  case (Cancel i)
  assume "allocated s"
  then show "allocated (step s a)"
    using set_delete_subset [of i "activeTasks s"]
    unfolding Cancel allocated_iff
    by (cases "map_of (activeTasks s) i") (auto simp: cancelTask_def)
next
  case CancelAll
  assume "allocated s"
  then show "allocated (step s a)"
    unfolding CancelAll allocated_iff by (simp add: cancelAllTasks_result)
next
  case (Begin now)
  assume al: "allocated s"
  show "allocated (step s a)"
  proof (cases "handlerQueue s")
    case 0
    with al show ?thesis unfolding Begin by simp
  next
    case (Suc n)
    from al have al': "allocated (s\<lparr>handlerQueue := n\<rparr>)" by (simp add: allocated_iff)
    from claim_cases [of "s\<lparr>handlerQueue := n\<rparr>" now] al'
    have "allocated (processNextTask_claim now (s\<lparr>handlerQueue := n\<rparr>))"
      unfolding allocated_iff by (elim disjE exE conjE) auto
    then show ?thesis
      unfolding Begin using Suc by (simp add: Let_def postDelayed_def allocated_iff)
  qed
next
  case (End outcome tEnd tEmit)
  assume al: "allocated s"
  show "allocated (step s a)"
  proof (cases "running s")
    case Nil
    with al show ?thesis unfolding End by simp
  next
    case (Cons x rest)
    obtain task t0 where x: "x = (task, t0)" by (cases x)
    from al Cons have "allocated (s\<lparr>running := rest\<rparr>)" by (simp add: allocated_iff)
    then have "allocated (processNextTask_complete task t0 outcome tEnd tEmit (s\<lparr>running := rest\<rparr>))"
      using complete_activeTasks(1) [of task t0 outcome tEnd tEmit "s\<lparr>running := rest\<rparr>"]
      unfolding allocated_iff by auto
    then show ?thesis
      unfolding End using Cons x by (simp add: postDelayed_def allocated_iff)
  qed
qed

lemma allocated_run: "allocated s \<Longrightarrow> allocated (run s tr)"
  by (induction tr arbitrary: s) (simp_all add: allocated_step)

lemma allocated_init: "allocated init"
  by (simp add: allocated_def init_def)

text \<open>A silenced id stays silenced, and gets no event, as long as it is not enqueued again.\<close>

lemma eventsFor_complete:
  assumes "id_task task = i \<longrightarrow> heap s (cancelled task)"
  shows "eventsFor i (processNextTask_complete task t0 outcome tEnd tEmit s) = eventsFor i s"
  using assms
  by (auto simp: eventsFor_def complete_emitted taskIdOf_def split: sum.split)

lemma eventsFor_cong: "emitted s' = emitted s \<Longrightarrow> eventsFor i s' = eventsFor i s"
  by (simp add: eventsFor_def)

lemma silenced_step:
  assumes al: "allocated s" and si: "silenced i s" and ni: "i \<notin> set (postedId a)"
  shows "silenced i (step s a) \<and> eventsFor i (step s a) = eventsFor i s"
proof (cases a)
  case (Post msg taskId uuid now)
  from ni have "(case taskId of Some j \<Rightarrow> j | None \<Rightarrow> uuid) \<noteq> i" unfolding Post by simp
  with al si show ?thesis
    unfolding Post allocated_iff silenced_iff
    by (auto simp: postMessage_result update_conv' eventsFor_def)
next
  case (Cancel j)
  from si show ?thesis
    unfolding Cancel silenced_iff
    by (cases "map_of (activeTasks s) j") (auto simp: cancelTask_def delete_conv' eventsFor_def)
next
  case CancelAll
  from si show ?thesis
    unfolding CancelAll silenced_iff by (simp add: cancelAllTasks_result eventsFor_def)
next
  case (Begin now)
  show ?thesis
  proof (cases "handlerQueue s")
    case 0
    with si show ?thesis unfolding Begin by simp
  next
    case (Suc n)
    from si have si': "silenced i (s\<lparr>handlerQueue := n\<rparr>)" by (simp add: silenced_iff)
    from claim_cases [of "s\<lparr>handlerQueue := n\<rparr>" now] si'
    have "silenced i (processNextTask_claim now (s\<lparr>handlerQueue := n\<rparr>))"
      unfolding silenced_iff by (elim disjE exE conjE) auto
    then show ?thesis
      unfolding Begin using Suc
      by (simp add: Let_def postDelayed_def silenced_iff eventsFor_def)
  qed
next
  case (End outcome tEnd tEmit)
  show ?thesis
  proof (cases "running s")
    case Nil
    with si show ?thesis unfolding End by simp
  next
    case (Cons x rest)
    obtain task t0 where x: "x = (task, t0)" by (cases x)
    let ?s = "s\<lparr>running := rest\<rparr>"
    let ?c = "processNextTask_complete task t0 outcome tEnd tEmit ?s"
    from si Cons x have hd: "id_task task = i \<longrightarrow> heap ?s (cancelled task)"
      and si': "silenced i ?s"
      by (simp_all add: silenced_iff)
    from si' have "silenced i ?c"
      unfolding silenced_iff by (simp add: complete_activeTasks(2))
    moreover from hd have "eventsFor i ?c = eventsFor i ?s" by (rule eventsFor_complete)
    ultimately show ?thesis
      unfolding End using Cons x by (simp add: postDelayed_def silenced_iff eventsFor_def)
  qed
qed

lemma silenced_run:
  "allocated s \<Longrightarrow> silenced i s \<Longrightarrow> i \<notin> set (postedIds tr) \<Longrightarrow>
     silenced i (run s tr) \<and> eventsFor i (run s tr) = eventsFor i s"
proof (induction tr arbitrary: s)
  case Nil
  then show ?case by simp
next
  case (Cons a tr)
  from Cons.prems(3) have a: "i \<notin> set (postedId a)" and tr: "i \<notin> set (postedIds tr)"
    by (simp_all add: postedIds_def)
  from silenced_step [OF Cons.prems(1,2) a]
  have s1: "silenced i (step s a)" and e1: "eventsFor i (step s a) = eventsFor i s" by simp_all
  from Cons.IH [OF allocated_step [OF Cons.prems(1)] s1 tr] e1
  show ?case by simp
qed

text \<open>The registry holds one entry per id, so its length is the number of ids in it.\<close>

lemma registry_distinct_step:
  "distinct (map fst (activeTasks s)) \<Longrightarrow> distinct (map fst (activeTasks (step s a)))"
proof (cases a)
  case (Begin now)
  assume "distinct (map fst (activeTasks s))"
  then show "distinct (map fst (activeTasks (step s a)))"
    unfolding Begin by (simp add: Let_def postDelayed_def split: nat.split)
next
  case (End outcome tEnd tEmit)
  assume "distinct (map fst (activeTasks s))"
  then show "distinct (map fst (activeTasks (step s a)))"
    unfolding End
    by (auto simp: postDelayed_def processNextTask_complete_def Let_def sendEventToJS_def
        sendErrorToJS_def distinct_delete split: list.split sum.split exn.split)
qed (simp_all add: postMessage_result cancelTask_def cancelAllTasks_result distinct_update
      distinct_delete split: option.split)

lemma registry_distinct: "distinct (map fst (activeTasks (run init tr)))"
proof -
  have "distinct (map fst (activeTasks s)) \<Longrightarrow> distinct (map fst (activeTasks (run s tr)))" for s
    by (induction tr arbitrary: s) (simp_all add: registry_distinct_step)
  then show ?thesis by (simp add: init_def)
qed

lemma registry_size:
  "distinct (map fst al) \<Longrightarrow> card (dom (map_of al)) = length al"
  using distinct_card [of "map fst al"] by (simp add: dom_map_of_conv_image_fst)

section \<open>Invariants of the iOS engine\<close>

lemma shaped_ios_step: "shaped_ios s \<Longrightarrow> shaped_ios (step_ios s a)"
proof (cases a)
  case (Finish k outcome t0 tEnd tEmit)
  assume "shaped_ios s"
  then show "shaped_ios (step_ios s a)"
    unfolding Finish
    by (auto simp: shaped_ios_def processTask_emitted successShape_event failureShape_event
        split: sum.split)
qed (simp_all add: shaped_ios_def step_ios_emitted_other del: step_ios.simps)

lemma shaped_ios_run: "shaped_ios s \<Longrightarrow> shaped_ios (run_ios s tr)"
  by (induction tr arbitrary: s) (simp_all add: shaped_ios_step)

lemma allocated_ios_iff:
  "allocated_ios s \<longleftrightarrow>
     (\<forall>t\<in>set (taskQueue s). cancelled t < nextAddr s)
     \<and> (\<forall>x\<in>set (activeTasks s). cancelled (snd x) < nextAddr s)
     \<and> (\<forall>t\<in>set (dispatched s). cancelled t < nextAddr s)"
  by (simp add: allocated_ios_def list_all_iff split_beta)

lemma silenced_ios_iff:
  "silenced_ios i s \<longleftrightarrow>
     map_of (activeTasks s) i = None
     \<and> (\<forall>t\<in>set (taskQueue s). id_task t = i \<longrightarrow> heap s (cancelled t))
     \<and> (\<forall>t\<in>set (dispatched s). id_task t = i \<longrightarrow> heap s (cancelled t))"
  by (simp add: silenced_ios_def list_all_iff)

lemma allocated_ios_step: "allocated_ios s \<Longrightarrow> allocated_ios (step_ios s a)"
proof (cases a)
  case (PostI msg taskId uuid now)
  assume "allocated_ios s"
  then show "allocated_ios (step_ios s a)"
    using set_update_subset
      [of "case taskId of Some i \<Rightarrow> i | None \<Rightarrow> uuid"
          "\<lparr>id_task = (case taskId of Some i \<Rightarrow> i | None \<Rightarrow> uuid), message = msg,
             timestamp = now, cancelled = nextAddr s\<rparr>" "activeTasks s"]
    unfolding PostI allocated_ios_iff
    by (fastforce simp: postMessage_result less_Suc_eq)
next
  case (CancelI i)
  assume "allocated_ios s"
  then show "allocated_ios (step_ios s a)"
    using set_delete_subset [of i "activeTasks s"]
    unfolding CancelI allocated_ios_iff
    by (cases "map_of (activeTasks s) i") (auto simp: cancelTask_def)
next
  case CancelAllI
  assume "allocated_ios s"
  then show "allocated_ios (step_ios s a)"
    unfolding CancelAllI allocated_ios_iff by (simp add: cancelAllTasks_result)
next
  case Tick
  assume al: "allocated_ios s"
  from tick_cases [of s] al show "allocated_ios (step_ios s a)"
    unfolding Tick allocated_ios_iff
    using set_delete_subset [of _ "activeTasks s"]
    by (elim disjE exE conjE) (simp, fastforce, fastforce)
next
  case (Finish k outcome t0 tEnd tEmit)
  assume al: "allocated_ios s"
  then show "allocated_ios (step_ios s a)"
    unfolding Finish allocated_ios_iff
    using set_remove_nth [of k "dispatched s"] by auto
next
  case Removal
  assume al: "allocated_ios s"
  show "allocated_ios (step_ios s a)"
  proof (cases "removals s")
    case Nil
    with al show ?thesis unfolding Removal by simp
  next
    case (Cons k rest)
    with al show ?thesis
      unfolding Removal allocated_ios_iff
      using set_delete_subset [of k "activeTasks s"] by auto
  qed
qed

lemma allocated_ios_run: "allocated_ios s \<Longrightarrow> allocated_ios (run_ios s tr)"
  by (induction tr arbitrary: s) (simp_all add: allocated_ios_step)

lemma allocated_ios_init: "allocated_ios init_ios"
  by (simp add: allocated_ios_def init_ios_def)

lemma eventsFor_processTask:
  assumes "id_task task = i \<longrightarrow> heap s (cancelled task)"
  shows "eventsFor i (processTask task t0 outcome tEnd tEmit s) = eventsFor i s"
  using assms
  by (auto simp: eventsFor_def processTask_emitted taskIdOf_def split: sum.split)

lemma silenced_ios_step:
  assumes al: "allocated_ios s" and si: "silenced_ios i s" and ni: "i \<notin> set (postedId_ios a)"
  shows "silenced_ios i (step_ios s a) \<and> eventsFor i (step_ios s a) = eventsFor i s"
proof (cases a)
  case (PostI msg taskId uuid now)
  from ni have "(case taskId of Some j \<Rightarrow> j | None \<Rightarrow> uuid) \<noteq> i" unfolding PostI by simp
  with al si show ?thesis
    unfolding PostI allocated_ios_iff silenced_ios_iff
    by (auto simp: postMessage_result update_conv' eventsFor_def)
next
  case (CancelI j)
  from si show ?thesis
    unfolding CancelI silenced_ios_iff
    by (cases "map_of (activeTasks s) j") (auto simp: cancelTask_def delete_conv' eventsFor_def)
next
  case CancelAllI
  from si show ?thesis
    unfolding CancelAllI silenced_ios_iff by (simp add: cancelAllTasks_result eventsFor_def)
next
  case Tick
  from tick_cases [of s] si have "silenced_ios i (processNextTask_ios s)"
    unfolding silenced_ios_iff by (elim disjE exE conjE) (auto simp: delete_conv')
  then show ?thesis unfolding Tick by (simp add: eventsFor_def)
next
  case (Finish k outcome t0 tEnd tEmit)
  show ?thesis
  proof (cases "k < length (dispatched s)")
    case False
    with si show ?thesis unfolding Finish by simp
  next
    case True
    let ?task = "dispatched s ! k"
    let ?s = "s\<lparr>dispatched := take k (dispatched s) @ drop (Suc k) (dispatched s)\<rparr>"
    from True have mem: "?task \<in> set (dispatched s)" by simp
    with si have hd: "id_task ?task = i \<longrightarrow> heap ?s (cancelled ?task)"
      by (simp add: silenced_ios_iff)
    from si set_remove_nth [of k "dispatched s"] have si': "silenced_ios i ?s"
      unfolding silenced_ios_iff by auto
    then have "silenced_ios i (processTask ?task t0 outcome tEnd tEmit ?s)"
      by (simp add: silenced_ios_iff)
    moreover from hd have "eventsFor i (processTask ?task t0 outcome tEnd tEmit ?s) = eventsFor i ?s"
      by (rule eventsFor_processTask)
    ultimately show ?thesis
      unfolding Finish using True by (simp add: eventsFor_def)
  qed
next
  case Removal
  from si show ?thesis
    unfolding Removal silenced_ios_iff
    by (cases "removals s") (auto simp: delete_conv' eventsFor_def)
qed

lemma silenced_ios_run:
  "allocated_ios s \<Longrightarrow> silenced_ios i s \<Longrightarrow> i \<notin> set (postedIds_ios tr) \<Longrightarrow>
     silenced_ios i (run_ios s tr) \<and> eventsFor i (run_ios s tr) = eventsFor i s"
proof (induction tr arbitrary: s)
  case Nil
  then show ?case by simp
next
  case (Cons a tr)
  from Cons.prems(3) have a: "i \<notin> set (postedId_ios a)" and tr: "i \<notin> set (postedIds_ios tr)"
    by (simp_all add: postedIds_ios_def)
  from silenced_ios_step [OF Cons.prems(1,2) a]
  have s1: "silenced_ios i (step_ios s a)"
    and e1: "eventsFor i (step_ios s a) = eventsFor i s" by simp_all
  from Cons.IH [OF allocated_ios_step [OF Cons.prems(1)] s1 tr] e1
  show ?case by simp
qed

section \<open>A task cancelled before it is claimed\<close>

lemma cancelled_before_claim:
  assumes reg: "map_of (activeTasks (run init pre)) i = Some u"
    and q: "list_all (\<lambda>q. id_task q = i \<longrightarrow> q = u) (taskQueue (run init pre))"
    and r: "list_all (\<lambda>(r, t0). id_task r \<noteq> i) (running (run init pre))"
    and tr: "i \<notin> set (postedIds tr)"
  shows "fst (cancelTask i (run init pre)) = Resolve True
          \<and> fst (cancelTask i (run (snd (cancelTask i (run init pre))) tr)) = Resolve False
          \<and> eventsFor i (run (snd (cancelTask i (run init pre))) tr) = eventsFor i (run init pre)"
proof -
  let ?a = "run init pre"
  let ?c = "snd (cancelTask i ?a)"
  have al: "allocated ?a" using allocated_init by (rule allocated_run)
  have "allocated (step ?a (Cancel i))" using al by (rule allocated_step)
  then have alc: "allocated ?c" by simp
  have sic: "silenced i ?c"
    using reg q r unfolding silenced_iff
    by (auto simp: cancelTask_def delete_conv' list_all_iff)
  have ev: "eventsFor i ?c = eventsFor i ?a"
    using reg by (simp add: cancelTask_def eventsFor_def)
  from silenced_run [OF alc sic tr]
  have s2: "silenced i (run ?c tr)" and e2: "eventsFor i (run ?c tr) = eventsFor i ?c"
    by simp_all
  from s2 have "map_of (activeTasks (run ?c tr)) i = None" by (simp add: silenced_iff)
  then have "fst (cancelTask i (run ?c tr)) = Resolve False" by (simp add: cancelTask_def)
  moreover have "fst (cancelTask i ?a) = Resolve True" using reg by (simp add: cancelTask_def)
  ultimately show ?thesis using e2 ev by simp
qed

lemma cancelled_before_claim_ios:
  assumes reg: "map_of (activeTasks (run_ios init_ios pre)) i = Some u"
    and q: "list_all (\<lambda>q. id_task q = i \<longrightarrow> q = u) (taskQueue (run_ios init_ios pre))"
    and r: "list_all (\<lambda>r. id_task r \<noteq> i) (dispatched (run_ios init_ios pre))"
    and tr: "i \<notin> set (postedIds_ios tr)"
  shows "fst (cancelTask i (run_ios init_ios pre)) = Resolve True
          \<and> fst (cancelTask i (run_ios (snd (cancelTask i (run_ios init_ios pre))) tr))
              = Resolve False
          \<and> eventsFor i (run_ios (snd (cancelTask i (run_ios init_ios pre))) tr)
              = eventsFor i (run_ios init_ios pre)"
proof -
  let ?a = "run_ios init_ios pre"
  let ?c = "snd (cancelTask i ?a)"
  have al: "allocated_ios ?a" using allocated_ios_init by (rule allocated_ios_run)
  have "allocated_ios (step_ios ?a (CancelI i))" using al by (rule allocated_ios_step)
  then have alc: "allocated_ios ?c" by simp
  have sic: "silenced_ios i ?c"
    using reg q r unfolding silenced_ios_iff
    by (auto simp: cancelTask_def delete_conv' list_all_iff)
  have ev: "eventsFor i ?c = eventsFor i ?a"
    using reg by (simp add: cancelTask_def eventsFor_def)
  from silenced_ios_run [OF alc sic tr]
  have s2: "silenced_ios i (run_ios ?c tr)" and e2: "eventsFor i (run_ios ?c tr) = eventsFor i ?c"
    by simp_all
  from s2 have "map_of (activeTasks (run_ios ?c tr)) i = None" by (simp add: silenced_ios_iff)
  then have "fst (cancelTask i (run_ios ?c tr)) = Resolve False" by (simp add: cancelTask_def)
  moreover have "fst (cancelTask i ?a) = Resolve True" using reg by (simp add: cancelTask_def)
  ultimately show ?thesis using e2 ev by simp
qed

text \<open>A claimed task whose registry entry is intact, and \<^verbatim>\<open>cancelAllTasks\<close>.\<close>

lemma claimed_then_cancelAll:
  assumes r: "running (run init pre) = (task, t0) # rest"
    and m: "map_of (activeTasks (run init pre)) (id_task task) = Some task"
    and tr: "id_task task \<notin> set (postedIds tr)"
  shows "fst (cancelAllTasks (run init pre)) \<noteq> Resolve 0
         \<and> heap (snd (cancelAllTasks (run init pre))) (cancelled task)
         \<and> eventsFor (id_task task) (run (snd (cancelAllTasks (run init pre))) tr)
             = eventsFor (id_task task) (run init pre)"
proof -
  let ?a = "run init pre"
  let ?c = "snd (cancelAllTasks ?a)"
  from m have mem: "(id_task task, task) \<in> set (activeTasks ?a)" by (rule map_of_SomeD)
  then have "activeTasks ?a \<noteq> []" by auto
  then have count: "fst (cancelAllTasks ?a) \<noteq> Resolve 0" by (simp add: cancelAllTasks_result)
  from mem have "cancelled task \<in> cancelled ` snd ` set (activeTasks ?a)" by force
  then have flag: "heap ?c (cancelled task)" by (simp add: cancelAllTasks_result)
  have "loopInv ?a" using loopInv_init by (rule loopInv_run)
  with r have rest: "rest = []" by (simp add: loopInv_def)
  have al: "allocated ?a" using allocated_init by (rule allocated_run)
  have "allocated (step ?a CancelAll)" using al by (rule allocated_step)
  then have alc: "allocated ?c" by simp
  have sic: "silenced (id_task task) ?c"
    using flag r rest unfolding silenced_iff by (simp add: cancelAllTasks_result)
  have ev: "eventsFor (id_task task) ?c = eventsFor (id_task task) ?a"
    by (simp add: cancelAllTasks_result eventsFor_def)
  from silenced_run [OF alc sic tr] ev
  have "eventsFor (id_task task) (run ?c tr) = eventsFor (id_task task) ?a" by simp
  with count flag show ?thesis by simp
qed

lemma claimed_then_cancelAll_ios:
  assumes k: "k < length (dispatched (run_ios init_ios pre))"
    and m: "map_of (activeTasks (run_ios init_ios pre))
              (id_task (dispatched (run_ios init_ios pre) ! k))
            = Some (dispatched (run_ios init_ios pre) ! k)"
    and o: "list_all (\<lambda>r. id_task r = id_task (dispatched (run_ios init_ios pre) ! k)
              \<longrightarrow> r = dispatched (run_ios init_ios pre) ! k) (dispatched (run_ios init_ios pre))"
    and tr: "id_task (dispatched (run_ios init_ios pre) ! k) \<notin> set (postedIds_ios tr)"
  shows "fst (cancelAllTasks (run_ios init_ios pre)) \<noteq> Resolve 0
         \<and> heap (snd (cancelAllTasks (run_ios init_ios pre)))
             (cancelled (dispatched (run_ios init_ios pre) ! k))
         \<and> eventsFor (id_task (dispatched (run_ios init_ios pre) ! k))
             (run_ios (snd (cancelAllTasks (run_ios init_ios pre))) tr)
             = eventsFor (id_task (dispatched (run_ios init_ios pre) ! k)) (run_ios init_ios pre)"
proof -
  let ?a = "run_ios init_ios pre"
  let ?c = "snd (cancelAllTasks ?a)"
  let ?t = "dispatched ?a ! k"
  from m have mem: "(id_task ?t, ?t) \<in> set (activeTasks ?a)" by (rule map_of_SomeD)
  then have "activeTasks ?a \<noteq> []" by auto
  then have count: "fst (cancelAllTasks ?a) \<noteq> Resolve 0" by (simp add: cancelAllTasks_result)
  from mem have "cancelled ?t \<in> cancelled ` snd ` set (activeTasks ?a)" by force
  then have flag: "heap ?c (cancelled ?t)" by (simp add: cancelAllTasks_result)
  have al: "allocated_ios ?a" using allocated_ios_init by (rule allocated_ios_run)
  have "allocated_ios (step_ios ?a CancelAllI)" using al by (rule allocated_ios_step)
  then have alc: "allocated_ios ?c" by simp
  have sic: "silenced_ios (id_task ?t) ?c"
    using flag o unfolding silenced_ios_iff
    by (auto simp: cancelAllTasks_result list_all_iff)
  have ev: "eventsFor (id_task ?t) ?c = eventsFor (id_task ?t) ?a"
    by (simp add: cancelAllTasks_result eventsFor_def)
  from silenced_ios_run [OF alc sic tr] ev
  have "eventsFor (id_task ?t) (run_ios ?c tr) = eventsFor (id_task ?t) ?a" by simp
  with count flag show ?thesis by simp
qed

section \<open>Cancelling everything\<close>

text \<open>
  Claim C1, as the code has it. \<^verbatim>\<open>cancelAllTasks\<close> returns the number of entries the registry
  holds at the call (in a reachable state, the number of ids in it) and leaves the queue and the
  registry empty, every task that was in the registry with its flag set. Claiming a task does
  not take it out of the registry. So let a task be claimed and still in processing in a
  reachable state of either engine, with the registry's entry for its id still being that task
  (it is not when the task has been cancelled by id, or when a later enqueue under the same id
  has replaced the entry), and on iOS no other dispatched task carrying the id. Then the call
  counts it and sets its flag, and however the run goes on, as long as the id is not enqueued
  again, no event for the id is emitted any more.
\<close>

theorem cancelAllTasks_counts_registry:
  "fst (cancelAllTasks s) = Resolve (int (length (activeTasks s)))
   \<and> fst (cancelAllTasks (run init tr))
       = Resolve (int (card (dom (map_of (activeTasks (run init tr))))))
   \<and> taskQueue (snd (cancelAllTasks s)) = []
   \<and> getQueueSize (snd (cancelAllTasks s)) = Resolve 0
   \<and> activeTasks (snd (cancelAllTasks s)) = []
   \<and> list_all (\<lambda>(k, t). heap (snd (cancelAllTasks s)) (cancelled t)) (activeTasks s)
   \<and> activeTasks (processNextTask_claim now a) = activeTasks a
   \<and> (running (run init pre) = (task, t0) # rest
        \<and> map_of (activeTasks (run init pre)) (id_task task) = Some task
        \<and> id_task task \<notin> set (postedIds after) \<longrightarrow>
          fst (cancelAllTasks (run init pre)) \<noteq> Resolve 0
          \<and> heap (snd (cancelAllTasks (run init pre))) (cancelled task)
          \<and> eventsFor (id_task task) (run (snd (cancelAllTasks (run init pre))) after)
              = eventsFor (id_task task) (run init pre))
   \<and> (k < length (dispatched (run_ios init_ios pre'))
        \<and> map_of (activeTasks (run_ios init_ios pre'))
              (id_task (dispatched (run_ios init_ios pre') ! k))
            = Some (dispatched (run_ios init_ios pre') ! k)
        \<and> list_all (\<lambda>r. id_task r = id_task (dispatched (run_ios init_ios pre') ! k)
              \<longrightarrow> r = dispatched (run_ios init_ios pre') ! k) (dispatched (run_ios init_ios pre'))
        \<and> id_task (dispatched (run_ios init_ios pre') ! k) \<notin> set (postedIds_ios after') \<longrightarrow>
          fst (cancelAllTasks (run_ios init_ios pre')) \<noteq> Resolve 0
          \<and> heap (snd (cancelAllTasks (run_ios init_ios pre')))
              (cancelled (dispatched (run_ios init_ios pre') ! k))
          \<and> eventsFor (id_task (dispatched (run_ios init_ios pre') ! k))
              (run_ios (snd (cancelAllTasks (run_ios init_ios pre'))) after')
              = eventsFor (id_task (dispatched (run_ios init_ios pre') ! k))
                  (run_ios init_ios pre'))"
proof -
  have count: "fst (cancelAllTasks s) = Resolve (int (length (activeTasks s)))"
    for s :: "('x, 'y) engine_scheme"
    by (simp add: cancelAllTasks_result)
  have reach: "fst (cancelAllTasks (run init tr))
       = Resolve (int (card (dom (map_of (activeTasks (run init tr))))))"
    using registry_distinct [of tr] by (simp add: count registry_size)
  have flags: "list_all (\<lambda>(k, t). heap (snd (cancelAllTasks s)) (cancelled t)) (activeTasks s)"
    by (force simp: cancelAllTasks_result list_all_iff)
  have rest: "taskQueue (snd (cancelAllTasks s)) = []
     \<and> getQueueSize (snd (cancelAllTasks s)) = Resolve 0
     \<and> activeTasks (snd (cancelAllTasks s)) = []
     \<and> activeTasks (processNextTask_claim now a) = activeTasks a"
    by (simp add: cancelAllTasks_result getQueueSize_def)
  from count [of s] reach flags rest claimed_then_cancelAll [of pre task t0 rest after]
    claimed_then_cancelAll_ios [of k pre' after']
  show ?thesis by blast
qed

theorem cancelAllTasks_counts_registry_witness:
  "fst (cancelAllTasks (run init [Post ''Hello'' (Some ''t1'') ''u1'' 10,
      Post ''World'' (Some ''t2'') ''u2'' 11, Begin 20])) = Resolve 2
   \<and> emitted (run init [Post ''Hello'' (Some ''t1'') ''u1'' 10,
      Post ''World'' (Some ''t2'') ''u2'' 11, Begin 20, CancelAll,
      Post ''Again'' (Some ''t3'') ''u3'' 30, End (Inr ''OLLEH'') 120 121]) = []
   \<and> emitted (run_ios init_ios [PostI ''Hello'' (Some ''t1'') ''u1'' 10,
      PostI ''World'' (Some ''t2'') ''u2'' 11, Tick, CancelAllI,
      PostI ''Again'' (Some ''t3'') ''u3'' 30, Finish 0 (Inr ''OLLEH'') 20 21 22]) = []"
proof -
  let ?pre = "[Post ''Hello'' (Some ''t1'') ''u1'' 10, Post ''World'' (Some ''t2'') ''u2'' 11,
      Begin 20]"
  let ?after = "[Post ''Again'' (Some ''t3'') ''u3'' 30, End (Inr ''OLLEH'') 120 121]"
  let ?prei = "[PostI ''Hello'' (Some ''t1'') ''u1'' 10, PostI ''World'' (Some ''t2'') ''u2'' 11,
      Tick]"
  let ?afteri = "[PostI ''Again'' (Some ''t3'') ''u3'' 30, Finish 0 (Inr ''OLLEH'') 20 21 22]"
  let ?t = "\<lparr>id_task = ''t1'', message = ''Hello'', timestamp = 10::int, cancelled = 0\<rparr>"
  let ?ti = "\<lparr>id_task = ''t1'', message = ''Hello'', timestamp = 10::real, cancelled = 0\<rparr>"
  have r: "running (run init ?pre) = (?t, 20) # []" by (simp add: eval_defs)
  have m: "map_of (activeTasks (run init ?pre)) (id_task ?t) = Some ?t" by (simp add: eval_defs)
  have p: "id_task ?t \<notin> set (postedIds ?after)" by (simp add: postedIds_def)
  have d: "dispatched (run_ios init_ios ?prei) = [?ti]" by (simp add: eval_ios_defs)
  have mi: "map_of (activeTasks (run_ios init_ios ?prei)) ''t1'' = Some ?ti"
    by (simp add: eval_ios_defs)
  have pi: "''t1'' \<notin> set (postedIds_ios ?afteri)" by (simp add: postedIds_ios_def)
  have e0: "emitted (run init ?pre) = []" by (simp add: eval_defs)
  have e0i: "emitted (run_ios init_ios ?prei) = []" by (simp add: eval_ios_defs)
  from cancelAllTasks_counts_registry
    [of "run init ?pre" "[]" 0 "run init ?pre" ?pre ?t 20 "[]" ?after 0 ?prei ?afteri]
    r m p d mi pi
  have c: "fst (cancelAllTasks (run init ?pre)) = Resolve (int (length (activeTasks (run init ?pre))))"
    and a: "eventsFor ''t1'' (run (snd (cancelAllTasks (run init ?pre))) ?after)
              = eventsFor ''t1'' (run init ?pre)"
    and i: "eventsFor ''t1'' (run_ios (snd (cancelAllTasks (run_ios init_ios ?prei))) ?afteri)
              = eventsFor ''t1'' (run_ios init_ios ?prei)"
    by simp_all
  have n: "length (activeTasks (run init ?pre)) = 2" by (simp add: eval_defs)
  have ea: "emitted (run (snd (cancelAllTasks (run init ?pre))) ?after) = []"
    by (simp add: eval_defs)
  have ei: "emitted (run_ios (snd (cancelAllTasks (run_ios init_ios ?prei))) ?afteri) = []"
    by (simp add: eval_ios_defs)
  from c n ea ei show ?thesis by (simp add: eval_defs eval_ios_defs)
qed

text \<open>
  The statement of C1 itself fails: with one task claimed and nothing queued, the call returns 1,
  not 0, and the claimed task's outcome is never delivered.
\<close>

theorem claimed_task_counted_and_suppressed:
  "taskQueue (run init [Post ''Hello'' (Some ''t1'') ''u1'' 10, Begin 20]) = []
   \<and> running (run init [Post ''Hello'' (Some ''t1'') ''u1'' 10, Begin 20])
       = [(\<lparr>id_task = ''t1'', message = ''Hello'', timestamp = 10, cancelled = 0\<rparr>, 20)]
   \<and> fst (cancelAllTasks (run init [Post ''Hello'' (Some ''t1'') ''u1'' 10, Begin 20]))
       = Resolve 1
   \<and> emitted (run init [Post ''Hello'' (Some ''t1'') ''u1'' 10, Begin 20, CancelAll,
       End (Inr ''OLLEH'') 120 121]) = []"
  by (simp add: eval_defs)

section \<open>One Processing Function at a time\<close>

text \<open>
  Claim C2, as the code has it. On Android at most one invocation of the Processing Function is in flight in every
  reachable state: the loop's \<^verbatim>\<open>Runnable\<close> is either waiting in the handler or inside
  \<^verbatim>\<open>processNextTask\<close>, never both, so while a task is being processed no other task can be
  claimed. On iOS one tick hands at most one task to the concurrent queue, and nothing makes the
  next tick wait for it.
\<close>

theorem at_most_one_in_flight:
  "length (running (run init tr)) \<le> 1
   \<and> handlerQueue (run init tr) + length (running (run init tr)) = 1
   \<and> (running (run init tr) \<noteq> [] \<longrightarrow> step (run init tr) (Begin now) = run init tr)
   \<and> length (dispatched (processNextTask_ios s)) \<le> length (dispatched s) + 1"
proof -
  have inv: "handlerQueue (run init tr) + length (running (run init tr)) = 1"
    using loopInv_run [OF loopInv_init, of tr] by (simp add: loopInv_def)
  have idle: "step (run init tr) (Begin now) = run init tr" if "running (run init tr) \<noteq> []"
  proof -
    from that have "length (running (run init tr)) \<noteq> 0" by simp
    with inv have "handlerQueue (run init tr) = 0" by arith
    then show ?thesis by simp
  qed
  have ios: "length (dispatched (processNextTask_ios s)) \<le> length (dispatched s) + 1"
    by (simp add: processNextTask_ios_def Let_def split: list.split)
  from inv idle ios show ?thesis by simp
qed

theorem at_most_one_in_flight_witness:
  "running (run init [Post ''a'' (Some ''t1'') ''u1'' 10, Post ''b'' (Some ''t2'') ''u2'' 11, Begin 20])
     = [(\<lparr>id_task = ''t1'', message = ''a'', timestamp = 10, cancelled = 0\<rparr>, 20)]
   \<and> step (run init [Post ''a'' (Some ''t1'') ''u1'' 10, Post ''b'' (Some ''t2'') ''u2'' 11, Begin 20])
        (Begin 30)
     = run init [Post ''a'' (Some ''t1'') ''u1'' 10, Post ''b'' (Some ''t2'') ''u2'' 11, Begin 20]"
proof -
  let ?s = "run init [Post ''a'' (Some ''t1'') ''u1'' 10, Post ''b'' (Some ''t2'') ''u2'' 11, Begin 20]"
  have r: "running ?s = [(\<lparr>id_task = ''t1'', message = ''a'', timestamp = 10, cancelled = 0\<rparr>, 20)]"
    by (simp add: eval_defs)
  then have "running ?s \<noteq> []" by simp
  with at_most_one_in_flight
    [of "[Post ''a'' (Some ''t1'') ''u1'' 10, Post ''b'' (Some ''t2'') ''u2'' 11, Begin 20]" 30]
  have "step ?s (Begin 30) = ?s" by blast
  with r show ?thesis by simp
qed

text \<open>
  The statement of C2 itself fails on iOS: two ticks in a row dispatch two tasks, both of which
  are then inside the Processing Function at once.
\<close>

theorem ios_invocations_overlap:
  "map id_task (dispatched (run_ios init_ios
      [PostI ''a'' (Some ''t1'') ''u1'' 10, PostI ''b'' (Some ''t2'') ''u2'' 11, Tick, Tick]))
     = [''t1'', ''t2'']
   \<and> \<not> length (dispatched (run_ios init_ios
      [PostI ''a'' (Some ''t1'') ''u1'' 10, PostI ''b'' (Some ''t2'') ''u2'' 11, Tick, Tick])) \<le> 1"
  by (simp add: eval_ios_defs)

section \<open>A Processing Function that fails\<close>

text \<open>
  Claim C3 on the code. A task is enqueued and claimed, and its Processing Function throws. The
  error outcome is delivered and the loop's \<^verbatim>\<open>Runnable\<close> is posted again, but the task's entry is
  still in the registry: \<^verbatim>\<open>activeTasks.remove\<close> stands after the call of \<^verbatim>\<open>processMessage\<close> inside
  the \<^verbatim>\<open>try\<close> block and is skipped by the exception. A later \<^verbatim>\<open>cancelTask\<close> for the delivered task
  answers true and \<^verbatim>\<open>cancelAllTasks\<close> counts it. When the Processing Function returns, the entry
  is removed. The Swift \<^verbatim>\<open>processTask\<close> has the removal in the same place and keeps the entry in
  the same way.
\<close>

theorem failed_task_stays_in_registry:
  "emitted (run init [Post ''Hello'' (Some ''t1'') ''u1'' 10, Begin 20,
       End (Inl (Exception (Some ''boom''))) 120 121])
     = [(''onWorkerMessage'',
         [(''taskId'', JString ''t1''), (''error'', JString ''boom''),
          (''timestamp'', JNumber 121)])]
   \<and> activeTasks (run init [Post ''Hello'' (Some ''t1'') ''u1'' 10, Begin 20,
       End (Inl (Exception (Some ''boom''))) 120 121])
     = [(''t1'', \<lparr>id_task = ''t1'', message = ''Hello'', timestamp = 10, cancelled = 0\<rparr>)]
   \<and> fst (cancelTask ''t1'' (run init [Post ''Hello'' (Some ''t1'') ''u1'' 10, Begin 20,
       End (Inl (Exception (Some ''boom''))) 120 121])) = Resolve True
   \<and> fst (cancelAllTasks (run init [Post ''Hello'' (Some ''t1'') ''u1'' 10, Begin 20,
       End (Inl (Exception (Some ''boom''))) 120 121])) = Resolve 1
   \<and> activeTasks (run init [Post ''Hello'' (Some ''t1'') ''u1'' 10, Begin 20,
       End (Inr ''OLLEH'') 120 121]) = []
   \<and> handlerQueue (run init [Post ''Hello'' (Some ''t1'') ''u1'' 10, Begin 20,
       End (Inl (Exception (Some ''boom''))) 120 121]) = 1
   \<and> activeTasks (run_ios init_ios [PostI ''Hello'' (Some ''t1'') ''u1'' 10, Tick,
       Finish 0 (Inl ''boom'') 20 21 22, Removal])
     = [(''t1'', \<lparr>id_task = ''t1'', message = ''Hello'', timestamp = 10, cancelled = 0\<rparr>)]
   \<and> activeTasks (run_ios init_ios [PostI ''Hello'' (Some ''t1'') ''u1'' 10, Tick,
       Finish 0 (Inr ''OLLEH'') 20 21 22, Removal]) = []"
  by (simp add: eval_defs eval_ios_defs)

section \<open>The shape of an outcome\<close>

text \<open>
  Claim C4, as the code has it. Every event either engine emits carries \<^verbatim>\<open>taskId\<close> and
  \<^verbatim>\<open>timestamp\<close> and exactly one of \<^verbatim>\<open>result\<close> and \<^verbatim>\<open>error\<close>. An event with \<^verbatim>\<open>result\<close> also carries
  \<^verbatim>\<open>processingTime\<close>; an event with \<^verbatim>\<open>error\<close> does not. A task that is not cancelled gets the
  first shape when its Processing Function returns and the second when it throws.
\<close>

theorem emitted_outcome_shape:
  "list_all (\<lambda>e. successShape e \<or> failureShape e) (emitted (run init tr))
   \<and> list_all (\<lambda>e. successShape e \<or> failureShape e) (emitted (run_ios init_ios tr'))
   \<and> (\<not> heap s (cancelled task) \<longrightarrow>
        successShape (last (emitted (processNextTask_complete task t0 (Inr result) tEnd tEmit s)))
        \<and> failureShape (last (emitted (processNextTask_complete task t0 (Inl e) tEnd tEmit s))))
   \<and> (\<not> heap b (cancelled task') \<longrightarrow>
        successShape (last (emitted (processTask task' t0' (Inr result) tEnd' tEmit' b)))
        \<and> failureShape (last (emitted (processTask task' t0' (Inl d) tEnd' tEmit' b))))"
proof -
  have "shaped init" by (simp add: shaped_def init_def)
  then have a: "shaped (run init tr)" by (rule shaped_run)
  have "shaped_ios init_ios" by (simp add: shaped_ios_def init_ios_def)
  then have b: "shaped_ios (run_ios init_ios tr')" by (rule shaped_ios_run)
  from a b show ?thesis
    by (simp add: shaped_def shaped_ios_def complete_emitted processTask_emitted
        successShape_event failureShape_event)
qed

theorem emitted_outcome_shape_witness:
  "list_all (\<lambda>e. successShape e \<or> failureShape e)
     (emitted (run init [Post ''Hello'' (Some ''t1'') ''u1'' 10, Post ''World'' None ''u2'' 11,
        Begin 20, End (Inr ''OLLEH'') 120 121, Begin 130,
        End (Inl (Exception (Some ''boom''))) 230 231]))
   \<and> length (emitted (run init [Post ''Hello'' (Some ''t1'') ''u1'' 10,
        Post ''World'' None ''u2'' 11, Begin 20, End (Inr ''OLLEH'') 120 121, Begin 130,
        End (Inl (Exception (Some ''boom''))) 230 231])) = 2
   \<and> successShape (last (emitted (processNextTask_complete
        \<lparr>id_task = ''t1'', message = ''Hello'', timestamp = 10, cancelled = 0\<rparr> 20
        (Inr ''OLLEH'') 120 121 (run init [Post ''Hello'' (Some ''t1'') ''u1'' 10]))))
   \<and> failureShape (last (emitted (processNextTask_complete
        \<lparr>id_task = ''t1'', message = ''Hello'', timestamp = 10, cancelled = 0\<rparr> 20
        (Inl (Exception (Some ''boom''))) 120 121
        (run init [Post ''Hello'' (Some ''t1'') ''u1'' 10]))))
   \<and> failureShape (last (emitted (processTask
        \<lparr>id_task = ''t1'', message = ''Hello'', timestamp = 10, cancelled = 0\<rparr> 20
        (Inl ''boom'') 21 22 (run_ios init_ios [PostI ''Hello'' (Some ''t1'') ''u1'' 10]))))"
proof -
  let ?tr = "[Post ''Hello'' (Some ''t1'') ''u1'' 10, Post ''World'' None ''u2'' 11,
        Begin 20, End (Inr ''OLLEH'') 120 121, Begin 130,
        End (Inl (Exception (Some ''boom''))) 230 231]"
  let ?s = "run init [Post ''Hello'' (Some ''t1'') ''u1'' 10]"
  let ?b = "run_ios init_ios [PostI ''Hello'' (Some ''t1'') ''u1'' 10]"
  have n: "length (emitted (run init ?tr)) = 2" by (simp add: eval_defs)
  have h: "\<not> heap ?s 0" by (simp add: eval_defs)
  have hb: "\<not> heap ?b 0" by (simp add: eval_ios_defs)
  from emitted_outcome_shape [of ?tr "[]" ?s
      "\<lparr>id_task = ''t1'', message = ''Hello'', timestamp = 10, cancelled = 0\<rparr>" 20 "''OLLEH''"
      120 121 "Exception (Some ''boom'')" ?b
      "\<lparr>id_task = ''t1'', message = ''Hello'', timestamp = 10, cancelled = 0\<rparr>" 20 21 22
      "''boom''"] n h hb
  show ?thesis by simp
qed

text \<open>
  The statement of C4 itself fails on the failure case: the event has no \<^verbatim>\<open>processingTime\<close>.
\<close>

theorem failure_outcome_lacks_processingTime:
  "emitted (run init
      [Post ''Hello'' (Some ''t1'') ''u1'' 10, Begin 20,
       End (Inl (Exception (Some ''boom''))) 120 121])
     = [(''onWorkerMessage'',
         [(''taskId'', JString ''t1''), (''error'', JString ''boom''),
          (''timestamp'', JNumber 121)])]
   \<and> \<not> hasKey [(''taskId'', JString ''t1''), (''error'', JString ''boom''),
          (''timestamp'', JNumber 121)] ''processingTime''"
  by (simp add: eval_defs hasKey_def)

section \<open>Cancelling one task\<close>

text \<open>
  Claim C5, as the code has it. \<^verbatim>\<open>cancelTask\<close> resolves with true exactly when the id is in the registry at the call;
  it then sets the flag of the task registered under the id and removes the entry. When the id
  is absent it resolves with false and changes nothing. Let a task be registered under an id in
  a reachable state of either engine, not yet claimed, with no other pending task carrying its
  id. Then \<^verbatim>\<open>cancelTask\<close> answers true, and after any further steps that do not enqueue the id
  again a repeated \<^verbatim>\<open>cancelTask\<close> answers false and no event has been emitted for the id.
\<close>

theorem cancelTask_once:
  "fst (cancelTask i s) = Resolve (map_of (activeTasks s) i \<noteq> None)
   \<and> (map_of (activeTasks s) i = Some t \<longrightarrow>
        heap (snd (cancelTask i s)) (cancelled t)
        \<and> map_of (activeTasks (snd (cancelTask i s))) = (map_of (activeTasks s))(i := None))
   \<and> (map_of (activeTasks z) j = None \<longrightarrow> cancelTask j z = (Resolve False, z))
   \<and> (map_of (activeTasks (run init pre)) i = Some u
        \<and> list_all (\<lambda>q. id_task q = i \<longrightarrow> q = u) (taskQueue (run init pre))
        \<and> list_all (\<lambda>(r, t0). id_task r \<noteq> i) (running (run init pre))
        \<and> i \<notin> set (postedIds tr) \<longrightarrow>
          fst (cancelTask i (run init pre)) = Resolve True
          \<and> fst (cancelTask i (run (snd (cancelTask i (run init pre))) tr)) = Resolve False
          \<and> eventsFor i (run (snd (cancelTask i (run init pre))) tr) = eventsFor i (run init pre))
   \<and> (map_of (activeTasks (run_ios init_ios pre')) i = Some u'
        \<and> list_all (\<lambda>q. id_task q = i \<longrightarrow> q = u') (taskQueue (run_ios init_ios pre'))
        \<and> list_all (\<lambda>r. id_task r \<noteq> i) (dispatched (run_ios init_ios pre'))
        \<and> i \<notin> set (postedIds_ios tr') \<longrightarrow>
          fst (cancelTask i (run_ios init_ios pre')) = Resolve True
          \<and> fst (cancelTask i (run_ios (snd (cancelTask i (run_ios init_ios pre'))) tr'))
              = Resolve False
          \<and> eventsFor i (run_ios (snd (cancelTask i (run_ios init_ios pre'))) tr')
              = eventsFor i (run_ios init_ios pre'))"
proof -
  have one: "fst (cancelTask i s) = Resolve (map_of (activeTasks s) i \<noteq> None)"
    by (simp add: cancelTask_def split: option.split)
  have present: "heap (snd (cancelTask i s)) (cancelled t)
        \<and> map_of (activeTasks (snd (cancelTask i s))) = (map_of (activeTasks s))(i := None)"
    if "map_of (activeTasks s) i = Some t"
    using that by (simp add: cancelTask_def delete_conv')
  have absent: "cancelTask j z = (Resolve False, z)" if "map_of (activeTasks z) j = None"
    using that by (simp add: cancelTask_def)
  from one present absent cancelled_before_claim [of pre i u tr]
    cancelled_before_claim_ios [of pre' i u' tr']
  show ?thesis by blast
qed

theorem cancelTask_once_witness:
  "fst (cancelTask ''t1''
      (run init [Post ''a'' (Some ''t1'') ''u1'' 10, Post ''b'' (Some ''t2'') ''u2'' 11]))
     = Resolve True
   \<and> fst (cancelTask ''t1''
      (run init [Post ''a'' (Some ''t1'') ''u1'' 10, Post ''b'' (Some ''t2'') ''u2'' 11,
                 Cancel ''t1'', Begin 20, Begin 30, End (Inr ''B'') 130 131, Begin 140]))
     = Resolve False
   \<and> eventsFor ''t1''
      (run init [Post ''a'' (Some ''t1'') ''u1'' 10, Post ''b'' (Some ''t2'') ''u2'' 11,
                 Cancel ''t1'', Begin 20, Begin 30, End (Inr ''B'') 130 131, Begin 140])
     = []
   \<and> cancelTask ''t9'' init = (Resolve False, init)
   \<and> fst (cancelTask ''t1''
      (run_ios init_ios [PostI ''a'' (Some ''t1'') ''u1'' 10, PostI ''b'' (Some ''t2'') ''u2'' 11,
                 CancelI ''t1'', Tick, Tick, Finish 0 (Inr ''B'') 30 31 32, Removal]))
     = Resolve False
   \<and> eventsFor ''t1''
      (run_ios init_ios [PostI ''a'' (Some ''t1'') ''u1'' 10, PostI ''b'' (Some ''t2'') ''u2'' 11,
                 CancelI ''t1'', Tick, Tick, Finish 0 (Inr ''B'') 30 31 32, Removal])
     = []"
  using cancelTask_once
    [of "''t1''"
        "run init [Post ''a'' (Some ''t1'') ''u1'' 10, Post ''b'' (Some ''t2'') ''u2'' 11]"
        "\<lparr>id_task = ''t1'', message = ''a'', timestamp = 10, cancelled = 0\<rparr>"
        init "''t9''"
        "[Post ''a'' (Some ''t1'') ''u1'' 10, Post ''b'' (Some ''t2'') ''u2'' 11]"
        "\<lparr>id_task = ''t1'', message = ''a'', timestamp = 10, cancelled = 0\<rparr>"
        "[Begin 20, Begin 30, End (Inr ''B'') 130 131, Begin 140]"
        "[PostI ''a'' (Some ''t1'') ''u1'' 10, PostI ''b'' (Some ''t2'') ''u2'' 11]"
        "\<lparr>id_task = ''t1'', message = ''a'', timestamp = 10, cancelled = 0\<rparr>"
        "[Tick, Tick, Finish 0 (Inr ''B'') 30 31 32, Removal]"]
  by (simp add: eval_defs eval_ios_defs eventsFor_def postedIds_def postedIds_ios_def)

text \<open>
  The statement of C5 itself fails when an id is used for more than one task. Two tasks are
  enqueued under one id: \<^verbatim>\<open>cancelTask\<close> answers true and cancels the second, and the outcome of
  the first is delivered under that id. A task is cancelled and dropped and its id enqueued
  again: \<^verbatim>\<open>cancelTask\<close> answers true a second time.
\<close>

theorem cancelTask_reused_id:
  "fst (cancelTask ''t1''
      (run init [Post ''a'' (Some ''t1'') ''u1'' 10, Post ''b'' (Some ''t1'') ''u2'' 11]))
     = Resolve True
   \<and> map taskIdOf (emitted
      (run init [Post ''a'' (Some ''t1'') ''u1'' 10, Post ''b'' (Some ''t1'') ''u2'' 11,
                 Cancel ''t1'', Begin 20, End (Inr ''A'') 120 121]))
     = [Some (JString ''t1'')]
   \<and> fst (cancelTask ''t1'' (run init [Post ''a'' (Some ''t1'') ''u1'' 10])) = Resolve True
   \<and> fst (cancelTask ''t1''
      (run init [Post ''a'' (Some ''t1'') ''u1'' 10, Cancel ''t1'', Begin 20,
                 Post ''b'' (Some ''t1'') ''u2'' 30]))
     = Resolve True"
  by (simp add: eval_defs taskIdOf_def)

section \<open>Order of delivery\<close>

text \<open>
  Claim C6, as the code has it. On Android, along every run without cancellation, the ids of the
  events emitted followed by the ids of the tasks still pending are the ids enqueued, in the
  order of enqueueing; once nothing is pending the outcomes have been delivered in exactly that
  order. The worker loop of either engine takes the head of the queue and leaves the rest in
  order. (On iOS the tasks taken are processed concurrently, and their outcomes come in the
  order in which they finish.)
\<close>

theorem fifo_delivery:
  assumes "list_all (\<lambda>a. \<not> isCancel a) tr"
  shows "map taskIdOf (emitted (run init tr))
           @ map (\<lambda>i. Some (JString i)) (pendingIds (run init tr))
         = map (\<lambda>i. Some (JString i)) (postedIds tr)
       \<and> (pendingIds (run init tr) = [] \<longrightarrow>
            map taskIdOf (emitted (run init tr)) = map (\<lambda>i. Some (JString i)) (postedIds tr))
       \<and> (taskQueue s = task # rest \<longrightarrow> taskQueue (processNextTask_claim now s) = rest)
       \<and> (taskQueue b = task' # rest' \<longrightarrow> taskQueue (processNextTask_ios b) = rest')"
proof -
  have u: "uncancelled init" by (simp add: uncancelled_def init_def)
  have "deliveryOrder init = []" by (simp add: deliveryOrder_def pendingIds_def init_def)
  with order_run [OF u assms]
  have eq: "map taskIdOf (emitted (run init tr))
           @ map (\<lambda>i. Some (JString i)) (pendingIds (run init tr))
         = map (\<lambda>i. Some (JString i)) (postedIds tr)"
    by (simp add: deliveryOrder_def)
  have drained: "map taskIdOf (emitted (run init tr)) = map (\<lambda>i. Some (JString i)) (postedIds tr)"
    if "pendingIds (run init tr) = []"
    using eq that by simp
  have pop: "taskQueue (processNextTask_claim now s) = rest" if "taskQueue s = task # rest"
    using that by (simp add: processNextTask_claim_def Let_def)
  have pop_ios: "taskQueue (processNextTask_ios b) = rest'" if "taskQueue b = task' # rest'"
    using that by (simp add: processNextTask_ios_def Let_def)
  from eq drained pop pop_ios show ?thesis by blast
qed

theorem fifo_delivery_witness:
  "map taskIdOf (emitted (run init
      [Post ''A'' (Some ''t1'') ''u1'' 10, Post ''B'' None ''u2'' 11, Begin 20,
       Post ''C'' (Some ''t3'') ''u3'' 12, End (Inr ''a'') 120 121, Begin 130,
       End (Inl (Exception None)) 230 231, Begin 240, End (Inr ''c'') 340 341]))
     = [Some (JString ''t1''), Some (JString ''u2''), Some (JString ''t3'')]
   \<and> taskQueue (processNextTask_claim 20
        (run init [Post ''A'' (Some ''t1'') ''u1'' 10, Post ''B'' None ''u2'' 11]))
     = [\<lparr>id_task = ''u2'', message = ''B'', timestamp = 11, cancelled = 1\<rparr>]
   \<and> taskQueue (processNextTask_ios
        (run_ios init_ios [PostI ''A'' (Some ''t1'') ''u1'' 10, PostI ''B'' None ''u2'' 11]))
     = [\<lparr>id_task = ''u2'', message = ''B'', timestamp = 11, cancelled = 1\<rparr>]"
proof -
  let ?tr = "[Post ''A'' (Some ''t1'') ''u1'' 10, Post ''B'' None ''u2'' 11, Begin 20,
       Post ''C'' (Some ''t3'') ''u3'' 12, End (Inr ''a'') 120 121, Begin 130,
       End (Inl (Exception None)) 230 231, Begin 240, End (Inr ''c'') 340 341]"
  let ?s = "run init [Post ''A'' (Some ''t1'') ''u1'' 10, Post ''B'' None ''u2'' 11]"
  let ?b = "run_ios init_ios [PostI ''A'' (Some ''t1'') ''u1'' 10, PostI ''B'' None ''u2'' 11]"
  have nc: "list_all (\<lambda>a. \<not> isCancel a) ?tr" by simp
  have p: "pendingIds (run init ?tr) = []" by (simp add: pendingIds_def eval_defs)
  have ids: "postedIds ?tr = [''t1'', ''u2'', ''t3'']" by (simp add: postedIds_def)
  have q: "taskQueue ?s = \<lparr>id_task = ''t1'', message = ''A'', timestamp = 10, cancelled = 0\<rparr>
        # [\<lparr>id_task = ''u2'', message = ''B'', timestamp = 11, cancelled = 1\<rparr>]"
    by (simp add: eval_defs)
  have qi: "taskQueue ?b = \<lparr>id_task = ''t1'', message = ''A'', timestamp = 10, cancelled = 0\<rparr>
        # [\<lparr>id_task = ''u2'', message = ''B'', timestamp = 11, cancelled = 1\<rparr>]"
    by (simp add: eval_ios_defs)
  from fifo_delivery [OF nc, of ?s _ _ 20 ?b] p q qi ids show ?thesis by simp
qed

text \<open>
  The statement of C6 itself fails on iOS: two tasks are enqueued and claimed in order, the
  second finishes first, and its outcome is delivered first.
\<close>

theorem ios_delivery_out_of_order:
  "map taskIdOf (emitted (run_ios init_ios
      [PostI ''A'' (Some ''t1'') ''u1'' 10, PostI ''B'' (Some ''t2'') ''u2'' 11, Tick, Tick,
       Finish 1 (Inr ''b'') 20 21 22, Finish 0 (Inr ''a'') 20 23 24]))
     = [Some (JString ''t2''), Some (JString ''t1'')]"
  by (simp add: eval_ios_defs taskIdOf_def)

section \<open>Enqueue\<close>

text \<open>
  Claim C7. \<^verbatim>\<open>postMessage\<close> always resolves its promise, with the supplied id or else the generated
  one. It builds a task with that id whose flag is false, stores it in the registry under the id
  (replacing whatever was there), and appends it to the tail of the queue, whose length grows by
  exactly one. It does so in one step whatever the worker loop is doing.
\<close>

theorem postMessage_enqueues:
  "(let finalTaskId = (case taskId of Some i \<Rightarrow> i | None \<Rightarrow> uuid);
        task = \<lparr>id_task = finalTaskId, message = msg, timestamp = now, cancelled = nextAddr s\<rparr>;
        r = postMessage msg taskId uuid now s
    in fst r = Resolve finalTaskId
       \<and> heap (snd r) (cancelled task) = False
       \<and> map_of (activeTasks (snd r)) = (map_of (activeTasks s))(finalTaskId \<mapsto> task)
       \<and> taskQueue (snd r) = taskQueue s @ [task]
       \<and> length (taskQueue (snd r)) = length (taskQueue s) + 1)"
  by (simp add: postMessage_result Let_def update_conv')

section \<open>Cancelling one task leaves the queue alone\<close>

text \<open>
  Claim C8. \<^verbatim>\<open>cancelTask\<close> never changes the pending queue: the queue after the call is the queue
  before it, so a cancelled task stays where it was, now with its flag set. It leaves the queue
  only when it reaches the head, where the worker loop of either engine drops it without
  running it or emitting anything.
\<close>

theorem cancelTask_leaves_queue:
  "taskQueue (snd (cancelTask i s)) = taskQueue s
   \<and> (map_of (activeTasks s) i = Some t \<longrightarrow> heap (snd (cancelTask i s)) (cancelled t))
   \<and> (taskQueue a = t' # rest \<and> heap a (cancelled t') \<longrightarrow>
        taskQueue (processNextTask_claim now a) = rest
        \<and> running (processNextTask_claim now a) = running a
        \<and> emitted (processNextTask_claim now a) = emitted a)
   \<and> (taskQueue b = t'' # rest' \<and> heap b (cancelled t'') \<longrightarrow>
        taskQueue (processNextTask_ios b) = rest'
        \<and> dispatched (processNextTask_ios b) = dispatched b
        \<and> emitted (processNextTask_ios b) = emitted b)"
  by (simp add: cancelTask_def processNextTask_claim_def processNextTask_ios_def Let_def
      split: option.split)

theorem cancelTask_leaves_queue_witness:
  "taskQueue (snd (cancelTask ''t1''
       (run init [Post ''a'' (Some ''t1'') ''u1'' 10, Post ''b'' (Some ''t2'') ''u2'' 11])))
     = [\<lparr>id_task = ''t1'', message = ''a'', timestamp = 10, cancelled = 0\<rparr>,
        \<lparr>id_task = ''t2'', message = ''b'', timestamp = 11, cancelled = 1\<rparr>]
   \<and> heap (snd (cancelTask ''t1''
       (run init [Post ''a'' (Some ''t1'') ''u1'' 10, Post ''b'' (Some ''t2'') ''u2'' 11]))) 0
   \<and> taskQueue (processNextTask_claim 30
       (run init [Post ''a'' (Some ''t1'') ''u1'' 10, Post ''b'' (Some ''t2'') ''u2'' 11,
                  Cancel ''t1'']))
     = [\<lparr>id_task = ''t2'', message = ''b'', timestamp = 11, cancelled = 1\<rparr>]
   \<and> emitted (processNextTask_claim 30
       (run init [Post ''a'' (Some ''t1'') ''u1'' 10, Post ''b'' (Some ''t2'') ''u2'' 11,
                  Cancel ''t1''])) = []
   \<and> taskQueue (processNextTask_ios
       (run_ios init_ios [PostI ''a'' (Some ''t1'') ''u1'' 10, PostI ''b'' (Some ''t2'') ''u2'' 11,
                  CancelI ''t1'']))
     = [\<lparr>id_task = ''t2'', message = ''b'', timestamp = 11, cancelled = 1\<rparr>]"
  using cancelTask_leaves_queue
    [of "''t1''"
        "run init [Post ''a'' (Some ''t1'') ''u1'' 10, Post ''b'' (Some ''t2'') ''u2'' 11]"
        "\<lparr>id_task = ''t1'', message = ''a'', timestamp = 10, cancelled = 0\<rparr>"
        "run init [Post ''a'' (Some ''t1'') ''u1'' 10, Post ''b'' (Some ''t2'') ''u2'' 11,
                  Cancel ''t1'']"
        "\<lparr>id_task = ''t1'', message = ''a'', timestamp = 10, cancelled = 0\<rparr>"
        "[\<lparr>id_task = ''t2'', message = ''b'', timestamp = 11, cancelled = 1\<rparr>]"
        30
        "run_ios init_ios [PostI ''a'' (Some ''t1'') ''u1'' 10, PostI ''b'' (Some ''t2'') ''u2'' 11,
                  CancelI ''t1'']"
        "\<lparr>id_task = ''t1'', message = ''a'', timestamp = 10, cancelled = 0\<rparr>"
        "[\<lparr>id_task = ''t2'', message = ''b'', timestamp = 11, cancelled = 1\<rparr>]"]
  by (simp add: eval_defs init_ios_def)

section \<open>The reference Processing Function\<close>

text \<open>
  Claim C9, as the code has it. Whenever its simulated delay completes, \<^verbatim>\<open>processMessage\<close> returns
  \<^verbatim>\<open>Processed: \<close> followed by what \<^verbatim>\<open>reversed().uppercase()\<close> makes of the payload, followed by
  \<^verbatim>\<open> (at t)\<close> with \<open>t\<close> the timestamp in decimal, for every payload. On Android the delay is
  \<^verbatim>\<open>Thread.sleep\<close>: when the worker thread is interrupted the function does not return a string
  but fails with the \<^verbatim>\<open>InterruptedException\<close>. The Swift function always returns. For a payload
  of ASCII characters (on iOS: without a carriage return) the middle part is the reversal of the
  payload with \<open>a\<close>..\<open>z\<close> replaced by \<open>A\<close>..\<open>Z\<close>: it has the payload's length, holds no lower-case
  letter, is the same whether the payload is reversed first or upper-cased first, and run
  through the transform again gives the upper-cased payload. The digits of a non-negative
  timestamp read back as the timestamp.
\<close>

theorem processMessage_result:
  "processMessage msg Slept lib now =
     Inr (''Processed: '' @ reversedUppercase lib msg @ '' (at '' @ toString_long now @ '')'')
   \<and> processMessage msg (Interrupted m) lib now = Inl (Exception m)
   \<and> processMessage_ios msg lib now =
     Inr (''Processed: '' @ reversedUppercase_ios lib msg @ '' (at '' @ toString_long now @ '')'')
   \<and> (list_all isAscii msg \<longrightarrow>
        reversedUppercase lib msg = rev (uppercaseAscii msg)
        \<and> length (reversedUppercase lib msg) = length msg
        \<and> list_all (\<lambda>c. isAscii c \<and> \<not> isLowerCase c) (reversedUppercase lib msg)
        \<and> reversedUppercase lib (reversedUppercase lib msg) = uppercaseAscii msg)
   \<and> (list_all isAscii msg \<and> CHR 0x0D \<notin> set msg \<longrightarrow>
        reversedUppercase_ios lib msg = rev (uppercaseAscii msg))
   \<and> (0 \<le> now \<longrightarrow> fromDecimal (toString_long now) = nat now)"
proof -
  have ascii: "reversedUppercase lib msg = rev (uppercaseAscii msg)
        \<and> length (reversedUppercase lib msg) = length msg
        \<and> list_all (\<lambda>c. isAscii c \<and> \<not> isLowerCase c) (reversedUppercase lib msg)
        \<and> reversedUppercase lib (reversedUppercase lib msg) = uppercaseAscii msg"
    if a: "list_all isAscii msg"
  proof -
    have r: "reversedUppercase lib msg = rev (uppercaseAscii msg)"
      using a by (simp add: reversedUppercase_def uppercaseAscii_def rev_map)
    have up: "list_all isAscii (uppercaseAscii msg)"
      using a by (simp add: uppercaseAscii_def list_all_iff uppercaseAsciiChar_ascii)
    have low: "list_all (\<lambda>c. isAscii c \<and> \<not> isLowerCase c) (rev (uppercaseAscii msg))"
      using a
      by (simp add: uppercaseAscii_def list_all_iff uppercaseAsciiChar_ascii
          uppercaseAsciiChar_not_lower)
    have twice: "reversedUppercase lib (rev (uppercaseAscii msg)) = uppercaseAscii msg"
      using up
      by (simp add: reversedUppercase_def) (simp add: uppercaseAscii_def uppercaseAsciiChar_idem)
    from r low twice show ?thesis by (simp add: uppercaseAscii_def)
  qed
  have ios: "reversedUppercase_ios lib msg = rev (uppercaseAscii msg)"
    if "list_all isAscii msg \<and> CHR 0x0D \<notin> set msg"
    using that by (simp add: reversedUppercase_ios_def uppercaseAscii_def rev_map)
  have dec: "fromDecimal (toString_long now) = nat now" if "0 \<le> now"
    using that by (simp add: toString_long_def fromDecimal_toString_nat)
  have slept: "processMessage msg Slept lib now =
     Inr (''Processed: '' @ reversedUppercase lib msg @ '' (at '' @ toString_long now @ '')'')"
    by (simp add: processMessage_def)
  have interrupted: "processMessage msg (Interrupted m) lib now = Inl (Exception m)"
    by (simp add: processMessage_def)
  have swift: "processMessage_ios msg lib now =
     Inr (''Processed: '' @ reversedUppercase_ios lib msg @ '' (at '' @ toString_long now @ '')'')"
    by (simp add: processMessage_ios_def)
  from slept interrupted swift ascii ios dec show ?thesis by blast
qed

theorem processMessage_result_witness:
  "processMessage ''Hello'' Slept (\<lambda>m. m) 1723 = Inr ''Processed: OLLEH (at 1723)''
   \<and> processMessage_ios ''Hello'' (\<lambda>m. m) 1723 = Inr ''Processed: OLLEH (at 1723)''
   \<and> fromDecimal ''1723'' = 1723"
proof -
  have a: "list_all isAscii ''Hello''" by code_simp
  have c: "CHR 0x0D \<notin> set ''Hello''" by simp
  have u: "rev (uppercaseAscii ''Hello'') = ''OLLEH''" by code_simp
  have t: "toString_long 1723 = ''1723''" by code_simp
  have n: "(0::int) \<le> 1723" by simp
  from processMessage_result [of "''Hello''" "\<lambda>m. m" 1723] a c n
  have "processMessage ''Hello'' Slept (\<lambda>m. m) 1723 =
          Inr (''Processed: '' @ rev (uppercaseAscii ''Hello'') @ '' (at '' @ toString_long 1723 @ '')'')"
    and "processMessage_ios ''Hello'' (\<lambda>m. m) 1723 =
          Inr (''Processed: '' @ rev (uppercaseAscii ''Hello'') @ '' (at '' @ toString_long 1723 @ '')'')"
    and "fromDecimal (toString_long 1723) = nat 1723"
    by simp_all
  then show ?thesis by (simp add: u t)
qed

text \<open>
  The statement of C9 itself fails on Android: with the worker thread interrupted during the
  delay the function fails instead of returning, and the worker loop delivers an error outcome
  for the task.
\<close>

theorem processMessage_interrupted:
  "processMessage ''Hello'' (Interrupted (Some ''sleep interrupted'')) (\<lambda>m. m) 1723
     = Inl (Exception (Some ''sleep interrupted''))
   \<and> emitted (run init [Post ''Hello'' (Some ''t1'') ''u1'' 10, Begin 20,
        End (processMessage ''Hello'' (Interrupted (Some ''sleep interrupted'')) (\<lambda>m. m) 1723)
          120 121])
     = [(''onWorkerMessage'',
         [(''taskId'', JString ''t1''), (''error'', JString ''sleep interrupted''),
          (''timestamp'', JNumber 121)])]"
  by (simp add: processMessage_def eval_defs)

section \<open>The processing indicator after a cancelled head\<close>

text \<open>
  Claim C10. When the Android worker loop polls a task whose flag is already set, it sets
  \<^verbatim>\<open>isProcessing\<close> to false without looking at the queue: the bridge method then reports false
  although the rest of the queue is still pending.
\<close>

theorem cancelled_head_sets_idle:
  assumes "taskQueue s = task # rest" and "heap s (cancelled task)"
  shows "isProcessing (processNextTask_claim now s) = False
         \<and> taskQueue (processNextTask_claim now s) = rest
         \<and> isProcessing_method (processNextTask_claim now s) = Resolve False
         \<and> getQueueSize (processNextTask_claim now s) = Resolve (int (length rest))"
  using assms
  by (simp add: processNextTask_claim_def isProcessing_method_def getQueueSize_def Let_def)

theorem cancelled_head_sets_idle_witness:
  "isProcessing_method
     (processNextTask_claim 30
       (run init [Post ''a'' (Some ''t1'') ''u1'' 10, Post ''b'' (Some ''t2'') ''u2'' 11,
                  Cancel ''t1''])) = Resolve False
   \<and> getQueueSize
     (processNextTask_claim 30
       (run init [Post ''a'' (Some ''t1'') ''u1'' 10, Post ''b'' (Some ''t2'') ''u2'' 11,
                  Cancel ''t1''])) = Resolve 1"
proof -
  let ?s = "run init [Post ''a'' (Some ''t1'') ''u1'' 10, Post ''b'' (Some ''t2'') ''u2'' 11,
                  Cancel ''t1'']"
  let ?t1 = "\<lparr>id_task = ''t1'', message = ''a'', timestamp = 10::int, cancelled = 0\<rparr>"
  let ?t2 = "\<lparr>id_task = ''t2'', message = ''b'', timestamp = 11::int, cancelled = 1\<rparr>"
  have q: "taskQueue ?s = ?t1 # [?t2]" by (simp add: eval_defs)
  have h: "heap ?s (cancelled ?t1)" by (simp add: eval_defs)
  from cancelled_head_sets_idle [OF q h, of 30] show ?thesis by simp
qed

end
